theory Spec2Isabelle
  imports Main "HOL-Library.Multiset"
begin

section \<open>The object store as seen by \<^verbatim>\<open>S3Cleaner\<close>\<close>

text \<open>
  The module \<^verbatim>\<open>s3_cleaner.py\<close> talks to the store through a boto3 client. The client
  is modelled as a record of functions, one per call the module makes. A call either
  returns or raises; the module distinguishes \<^verbatim>\<open>ClientError\<close> from every other
  exception, so the model keeps exactly these two classes, each carrying \<^verbatim>\<open>str(e)\<close>.
\<close>

type_synonym bucket = string
type_synonym key = string

datatype exn = ClientError string | OtherException string

fun str_of :: "exn \<Rightarrow> string" where
  "str_of (ClientError m) = m"
| "str_of (OtherException m) = m"

text \<open>An entry of a delete request: \<^verbatim>\<open>{'Key': k}\<close> or \<^verbatim>\<open>{'Key': k, 'VersionId': v}\<close>.\<close>

record del_item =
  Key :: key
  VersionId :: "string option"

text \<open>
  Listing pages are dictionaries in which \<^verbatim>\<open>'Contents'\<close>, \<^verbatim>\<open>'Versions'\<close> and
  \<^verbatim>\<open>'DeleteMarkers'\<close> may be absent. Entries of a version listing are pairs of a key
  and a version id.
\<close>

record objects_page =
  Contents :: "key list option"

record versions_page =
  Versions :: "(key \<times> string) list option"
  DeleteMarkers :: "(key \<times> string) list option"

text \<open>The response of the multi-delete call: the deleted entries and the per-item errors
  (key and message), both optional in the dictionary.\<close>

record delete_response =
  Deleted :: "del_item list option"
  Errors :: "(key \<times> string) list option"

text \<open>
  A paginator is consumed lazily: each round trip yields a page or raises. It is the list
  of these results; iteration stops at the first error and never looks further. An omitted
  \<^verbatim>\<open>Prefix\<close> argument is the empty prefix.
\<close>

record s3_client =
  head_bucket :: "bucket \<Rightarrow> exn option"
  get_bucket_versioning :: "bucket \<Rightarrow> exn + string option"
  list_objects_v2 :: "bucket \<Rightarrow> string \<Rightarrow> (exn + objects_page) list"
  list_object_versions :: "bucket \<Rightarrow> string \<Rightarrow> (exn + versions_page) list"
  delete_objects :: "bucket \<Rightarrow> del_item list \<Rightarrow> exn + delete_response"
  copy_object :: "bucket \<Rightarrow> key \<Rightarrow> bucket \<Rightarrow> key \<Rightarrow> exn option"

definition bucket_exists :: "s3_client \<Rightarrow> bucket \<Rightarrow> exn + bool" where
  "bucket_exists cl b =
     (case head_bucket cl b of
        None \<Rightarrow> Inr True
      | Some (ClientError m) \<Rightarrow> Inr False
      | Some (OtherException m) \<Rightarrow> Inl (OtherException m))"

definition is_versioned :: "s3_client \<Rightarrow> bucket \<Rightarrow> exn + bool" where
  "is_versioned cl b =
     (case get_bucket_versioning cl b of
        Inr status \<Rightarrow> Inr (status = Some ''Enabled'')
      | Inl (ClientError m) \<Rightarrow> Inr False
      | Inl (OtherException m) \<Rightarrow> Inl (OtherException m))"

subsection \<open>Counting\<close>

record counts =
  objects :: nat
  versions :: nat
  delete_markers :: nat

fun count_contents :: "(exn + objects_page) list \<Rightarrow> counts \<Rightarrow> exn + counts" where
  "count_contents [] cs = Inr cs"
| "count_contents (Inl e # ps) cs = Inl e"
| "count_contents (Inr page # ps) cs =
     (case Contents page of
        None \<Rightarrow> count_contents ps cs
      | Some xs \<Rightarrow> count_contents ps (cs\<lparr>objects := objects cs + length xs\<rparr>))"

fun count_versions :: "(exn + versions_page) list \<Rightarrow> counts \<Rightarrow> exn + counts" where
  "count_versions [] cs = Inr cs"
| "count_versions (Inl e # ps) cs = Inl e"
| "count_versions (Inr page # ps) cs =
     (let cs1 = (case Versions page of
                   None \<Rightarrow> cs
                 | Some vs \<Rightarrow> cs\<lparr>versions := versions cs + length vs\<rparr>);
          cs2 = (case DeleteMarkers page of
                   None \<Rightarrow> cs1
                 | Some ms \<Rightarrow> cs1\<lparr>delete_markers := delete_markers cs1 + length ms\<rparr>)
      in count_versions ps cs2)"

text \<open>\<^verbatim>\<open>count_objects\<close>: the \<^verbatim>\<open>except ClientError\<close> clause logs and re-raises, so every
  exception reaches the caller. \<^verbatim>\<open>prefix or ''\<close> turns \<^verbatim>\<open>None\<close> into the empty prefix.\<close>

definition count_objects :: "s3_client \<Rightarrow> bucket \<Rightarrow> string option \<Rightarrow> exn + counts" where
  "count_objects cl b prefix =
     (let p = (case prefix of None \<Rightarrow> [] | Some q \<Rightarrow> q) in
      case count_contents (list_objects_v2 cl b p)
             \<lparr>objects = 0, versions = 0, delete_markers = 0\<rparr> of
        Inl e \<Rightarrow> Inl e
      | Inr cs \<Rightarrow>
          (case is_versioned cl b of
             Inl e \<Rightarrow> Inl e
           | Inr False \<Rightarrow> Inr cs
           | Inr True \<Rightarrow> count_versions (list_object_versions cl b p) cs))"

section \<open>Control, progress and the worker pool\<close>

text \<open>
  The caller passes an optional progress callback, the pool size and two optional
  callables that read flags another thread writes. A flag is the sequence of answers it
  gives to successive polls: \<open>f n\<close> is the answer to poll number \<open>n\<close> of that flag.
  Progress messages are kept as a datatype, one constructor per format string of the
  module; the boolean of a constructor tells the versioned wording from the plain one.
\<close>

datatype progress_msg =
    MsgVerifying bucket
  | MsgErrBucketMissing bucket
  | MsgVersioning bool
  | MsgErrCleaning string
  | MsgDeleting bool int
  | MsgCancelled
  | MsgEmptyPage bool nat
  | MsgCreatingBatch nat nat nat
  | MsgTotal nat nat
  | MsgDeleted bool nat nat nat
  | MsgCleanupCompleted bool nat
  | MsgErrDeleting bool string
  | MsgVerifyingBuckets
  | MsgErrSourceMissing bucket
  | MsgErrDestMissing bucket
  | MsgCopying int
  | MsgCopyPage nat nat nat
  | MsgCopyTotal nat nat
  | MsgCopied nat nat nat
  | MsgCopyCompleted nat
  | MsgErrCopying string

text \<open>The messages the module prefixes with \<^verbatim>\<open>ERROR: \<close>.\<close>

fun is_error_msg :: "progress_msg \<Rightarrow> bool" where
  "is_error_msg (MsgErrBucketMissing b) = True"
| "is_error_msg (MsgErrCleaning m) = True"
| "is_error_msg (MsgErrDeleting v m) = True"
| "is_error_msg (MsgErrSourceMissing b) = True"
| "is_error_msg (MsgErrDestMissing b) = True"
| "is_error_msg (MsgErrCopying m) = True"
| "is_error_msg m = False"

record control =
  progress_callback :: bool
  max_workers :: int
  cancel_flag :: "(nat \<Rightarrow> bool) option"
  pause_flag :: "(nat \<Rightarrow> bool) option"

text \<open>
  The thread pool runs submitted tasks concurrently with the driving thread. Two facts
  about its schedule reach the driver, and they are the pool's part of the environment:
  which futures no worker has picked up yet at the moment the driver cancels them
  (\<open>still_pending\<close>, by submission index), and the order in which \<^verbatim>\<open>as_completed\<close>
  hands futures back (\<open>finish_time\<close>, by submission index; ties keep submission order).
\<close>

record pool =
  still_pending :: "nat \<Rightarrow> bool"
  finish_time :: "nat \<Rightarrow> nat"

text \<open>
  The state of a run: the number of polls of either flag so far, the messages delivered
  to the callback, the futures in submission order (the task and whether it was
  cancelled before a worker took it) and the page counter.
\<close>

record 't run_base =
  cancel_polls :: nat
  pause_polls :: nat
  messages :: "progress_msg list"
  futures :: "('t \<times> bool) list"
  pages_processed :: nat

record clean_state = "del_item list run_base" +
  batches_created :: nat
  completed_batches :: nat
  deleted_count :: nat

datatype exit = Done | Return bool | Raise exn

definition notify :: "control \<Rightarrow> progress_msg \<Rightarrow> ('t, 'a) run_base_scheme \<Rightarrow> ('t, 'a) run_base_scheme" where
  "notify c m s = (if progress_callback c then s\<lparr>messages := messages s @ [m]\<rparr> else s)"

text \<open>\<^verbatim>\<open>cancel_flag and cancel_flag()\<close>: an absent flag is not called.\<close>

definition poll_cancel :: "control \<Rightarrow> ('t, 'a) run_base_scheme \<Rightarrow> bool \<times> ('t, 'a) run_base_scheme" where
  "poll_cancel c s =
     (case cancel_flag c of
        None \<Rightarrow> (False, s)
      | Some f \<Rightarrow> (f (cancel_polls s), s\<lparr>cancel_polls := Suc (cancel_polls s)\<rparr>))"

definition poll_pause :: "control \<Rightarrow> ('t, 'a) run_base_scheme \<Rightarrow> bool \<times> ('t, 'a) run_base_scheme" where
  "poll_pause c s =
     (case pause_flag c of
        None \<Rightarrow> (False, s)
      | Some f \<Rightarrow> (f (pause_polls s), s\<lparr>pause_polls := Suc (pause_polls s)\<rparr>))"

text \<open>
  The pause loop \<^verbatim>\<open>while pause_flag and pause_flag(): sleep; if cancelled: return False\<close>.
  It runs for as long as the flag answers true and nobody cancels, so it may not return:
  the result \<open>None\<close> is a loop that never ends. \<open>Some (True, s)\<close> is the early return.
\<close>

partial_function (option) wait_while_paused ::
  "control \<Rightarrow> ('t, 'a) run_base_scheme \<Rightarrow> (bool \<times> ('t, 'a) run_base_scheme) option" where
  "wait_while_paused c s =
     (if fst (poll_pause c s)
      then (if fst (poll_cancel c (snd (poll_pause c s)))
            then Some (True, snd (poll_cancel c (snd (poll_pause c s))))
            else wait_while_paused c (snd (poll_cancel c (snd (poll_pause c s)))))
      else Some (False, snd (poll_pause c s)))"

text \<open>\<^verbatim>\<open>for future in futures: future.cancel()\<close>: a future that is already running or
  finished stays as it is, a pending one is cancelled and will never run.\<close>

definition cancel_futures :: "pool \<Rightarrow> ('t, 'a) run_base_scheme \<Rightarrow> ('t, 'a) run_base_scheme" where
  "cancel_futures p s =
     s\<lparr>futures := map (\<lambda>(i, (t, cancelled)). (t, cancelled \<or> still_pending p i))
                      (enumerate 0 (futures s))\<rparr>"

text \<open>\<^verbatim>\<open>as_completed(futures)\<close>: every future, in the order of completion.\<close>

definition as_completed :: "pool \<Rightarrow> 'f list \<Rightarrow> 'f list" where
  "as_completed p fs = map (\<lambda>i. fs ! i) (sort_key (finish_time p) [0..<length fs])"

text \<open>
  Leaving the \<^verbatim>\<open>with ThreadPoolExecutor(...)\<close> block, by any path, waits for the pool:
  every submitted task that was not cancelled has run to completion when the operation
  returns. These are the tasks of a final state that reached the store.
\<close>

definition executed :: "('t, 'a) run_base_scheme \<Rightarrow> 't list" where
  "executed s = map fst (filter (\<lambda>f. \<not> snd f) (futures s))"

definition submitted :: "('t, 'a) run_base_scheme \<Rightarrow> 't list" where
  "submitted s = map fst (futures s)"

section \<open>Cleaning a bucket\<close>

subsection \<open>One batch\<close>

datatype log_entry =
    LogWarnDeleting key string
  | LogErrDeletingBatch string
  | LogErrCopying key string

text \<open>
  A call that reached the store, with the store's answer: the bucket and the entries of a
  multi-delete, or the source and the destination of a copy.
\<close>

datatype store_call =
    DeleteObjectsCall bucket "del_item list" "exn + delete_response"
  | CopyObjectCall bucket key bucket key "exn option"

text \<open>
  \<^verbatim>\<open>_delete_batch\<close> calls the multi-delete once, logs a warning for every entry of
  \<^verbatim>\<open>Errors\<close> and returns the length of \<^verbatim>\<open>Deleted\<close>; any exception is logged and turned
  into the count 0. The function returns the log lines it writes, the count, and the call
  it made to the store.
\<close>

definition delete_batch ::
  "s3_client \<Rightarrow> bucket \<Rightarrow> del_item list \<Rightarrow> log_entry list \<times> nat \<times> store_call list" where
  "delete_batch cl b objects_batch =
     (let answer = delete_objects cl b objects_batch;
          call = DeleteObjectsCall b objects_batch answer
      in case answer of
           Inl e \<Rightarrow> ([LogErrDeletingBatch (str_of e)], 0, [call])
         | Inr response \<Rightarrow>
             ((case Errors response of
                 None \<Rightarrow> []
               | Some errs \<Rightarrow> map (\<lambda>(k, m). LogWarnDeleting k m) errs),
              length (case Deleted response of None \<Rightarrow> [] | Some ds \<Rightarrow> ds),
              [call]))"

subsection \<open>Batches of a page\<close>

text \<open>\<^verbatim>\<open>for i in range(0, len(xs), 1000): batch = xs[i:i+1000]\<close>\<close>

definition split_batches :: "'a list \<Rightarrow> 'a list list" where
  "split_batches xs =
     map (\<lambda>i. take 1000 (drop i xs))
         (map (\<lambda>j. j * 1000) [0..<(length xs + 999) div 1000])"

definition objects_in_page :: "objects_page \<Rightarrow> del_item list" where
  "objects_in_page page =
     (case Contents page of
        None \<Rightarrow> []
      | Some ks \<Rightarrow> map (\<lambda>k. \<lparr>Key = k, VersionId = None\<rparr>) ks)"

definition objects_to_delete :: "versions_page \<Rightarrow> del_item list" where
  "objects_to_delete page =
     (case Versions page of
        None \<Rightarrow> []
      | Some vs \<Rightarrow> map (\<lambda>(k, v). \<lparr>Key = k, VersionId = Some v\<rparr>) vs) @
     (case DeleteMarkers page of
        None \<Rightarrow> []
      | Some ms \<Rightarrow> map (\<lambda>(k, v). \<lparr>Key = k, VersionId = Some v\<rparr>) ms)"

text \<open>The inner loop: count the batch, submit it, report every fifth batch.\<close>

fun submit_batches :: "control \<Rightarrow> del_item list list \<Rightarrow> clean_state \<Rightarrow> clean_state" where
  "submit_batches c [] s = s"
| "submit_batches c (batch # rest) s =
     (let s1 = s\<lparr>futures := futures s @ [(batch, False)],
                 batches_created := Suc (batches_created s)\<rparr>
      in submit_batches c rest
           (if batches_created s1 mod 5 = 0
            then notify c (MsgCreatingBatch (pages_processed s1) (batches_created s1)
                             (length batch)) s1
            else s1))"

subsection \<open>The page loop\<close>

text \<open>
  \<^verbatim>\<open>_clean_non_versioned_bucket\<close> and \<^verbatim>\<open>_clean_versioned_bucket\<close> run the same loop
  over their paginator; they differ in how a page is flattened into delete entries
  (\<open>flatten\<close>) and in the wording of messages (\<open>v\<close>). The plain variant skips a page
  when \<^verbatim>\<open>'Contents'\<close> is absent or empty, the versioned one when the flattened list is
  empty: in both, when \<open>flatten page = []\<close>. The next page is fetched, and may raise,
  before the body polls the cancel flag.
\<close>

fun clean_pages ::
  "control \<Rightarrow> pool \<Rightarrow> bool \<Rightarrow> ('p \<Rightarrow> del_item list) \<Rightarrow> (exn + 'p) list \<Rightarrow> clean_state
     \<Rightarrow> (exit \<times> clean_state) option" where
  "clean_pages c p v flatten [] s = Some (Done, s)"
| "clean_pages c p v flatten (Inl e # pages) s = Some (Raise e, s)"
| "clean_pages c p v flatten (Inr page # pages) s =
     (if fst (poll_cancel c s)
      then Some (Return False, cancel_futures p (notify c MsgCancelled (snd (poll_cancel c s))))
      else
        (case wait_while_paused c (snd (poll_cancel c s)) of
           None \<Rightarrow> None
         | Some (True, s1) \<Rightarrow> Some (Return False, s1)
         | Some (False, s1) \<Rightarrow>
             (let s2 = s1\<lparr>pages_processed := Suc (pages_processed s1)\<rparr> in
              if flatten page = []
              then clean_pages c p v flatten pages
                     (if pages_processed s2 mod 10 = 0
                      then notify c (MsgEmptyPage v (pages_processed s2)) s2
                      else s2)
              else clean_pages c p v flatten pages
                     (submit_batches c (split_batches (flatten page)) s2))))"

subsection \<open>Collecting the results\<close>

text \<open>
  The loop over \<^verbatim>\<open>as_completed(futures)\<close>. \<^verbatim>\<open>future.result()\<close> is the value of
  \<^verbatim>\<open>_delete_batch\<close>, which catches every exception itself, so the \<^verbatim>\<open>except\<close> branch
  of this loop is never taken.
\<close>

fun drain_batches ::
  "control \<Rightarrow> s3_client \<Rightarrow> bucket \<Rightarrow> bool \<Rightarrow> del_item list list \<Rightarrow> clean_state
     \<Rightarrow> exit \<times> clean_state" where
  "drain_batches c cl b v [] s = (Done, s)"
| "drain_batches c cl b v (batch # rest) s =
     (if fst (poll_cancel c s)
      then (Return False, notify c MsgCancelled (snd (poll_cancel c s)))
      else
        (let s1 = snd (poll_cancel c s);
             deleted = fst (snd (delete_batch cl b batch));
             s2 = s1\<lparr>completed_batches := Suc (completed_batches s1),
                      deleted_count := deleted_count s1 + deleted\<rparr>
         in drain_batches c cl b v rest
              (notify c (MsgDeleted v (deleted_count s2) (completed_batches s2)
                           (batches_created s2)) s2)))"

subsection \<open>The two cleaning functions and their entry point\<close>

text \<open>\<^verbatim>\<open>except ClientError as e\<close> of the two cleaning functions: report and return
  \<^verbatim>\<open>False\<close>; any other exception goes on to the caller.\<close>

fun catch_client_error :: "control \<Rightarrow> bool \<Rightarrow> exit \<times> clean_state \<Rightarrow> exit \<times> clean_state" where
  "catch_client_error c v (Raise (ClientError m), s) =
     (Return False, notify c (MsgErrDeleting v m) s)"
| "catch_client_error c v r = r"

text \<open>\<^verbatim>\<open>ThreadPoolExecutor(max_workers=n)\<close> raises \<^verbatim>\<open>ValueError\<close> unless \<open>n\<close> is
  positive.\<close>

definition clean_with_pool ::
  "s3_client \<Rightarrow> control \<Rightarrow> pool \<Rightarrow> bucket \<Rightarrow> bool \<Rightarrow> ('p \<Rightarrow> del_item list)
     \<Rightarrow> (exn + 'p) list \<Rightarrow> clean_state \<Rightarrow> (exit \<times> clean_state) option" where
  "clean_with_pool cl c p b v flatten pages s0 =
     (let s1 = notify c (MsgDeleting v (max_workers c)) s0 in
      if max_workers c \<le> 0
      then Some (Raise (OtherException ''max_workers must be greater than 0''), s1)
      else
        (case clean_pages c p v flatten pages s1 of
           None \<Rightarrow> None
         | Some (Done, s2) \<Rightarrow>
             (let s3 = notify c (MsgTotal (pages_processed s2) (batches_created s2)) s2 in
              case drain_batches c cl b v (as_completed p (submitted s3)) s3 of
                (Done, s4) \<Rightarrow>
                  Some (Return True, notify c (MsgCleanupCompleted v (deleted_count s4)) s4)
              | (ex, s4) \<Rightarrow> Some (ex, s4))
         | Some (ex, s2) \<Rightarrow> Some (catch_client_error c v (ex, s2))))"

definition clean_non_versioned_bucket ::
  "s3_client \<Rightarrow> control \<Rightarrow> pool \<Rightarrow> bucket \<Rightarrow> clean_state \<Rightarrow> (exit \<times> clean_state) option" where
  "clean_non_versioned_bucket cl c p b s0 =
     clean_with_pool cl c p b False objects_in_page (list_objects_v2 cl b []) s0"

definition clean_versioned_bucket ::
  "s3_client \<Rightarrow> control \<Rightarrow> pool \<Rightarrow> bucket \<Rightarrow> clean_state \<Rightarrow> (exit \<times> clean_state) option" where
  "clean_versioned_bucket cl c p b s0 =
     clean_with_pool cl c p b True objects_to_delete (list_object_versions cl b []) s0"

definition init_clean :: clean_state where
  "init_clean =
     \<lparr>cancel_polls = 0, pause_polls = 0, messages = [], futures = [], pages_processed = 0,
      batches_created = 0, completed_batches = 0, deleted_count = 0\<rparr>"

text \<open>\<^verbatim>\<open>except Exception as e\<close> of \<^verbatim>\<open>clean_bucket\<close>: report and return \<^verbatim>\<open>False\<close>.\<close>

definition clean_failed :: "control \<Rightarrow> exn \<Rightarrow> clean_state \<Rightarrow> bool \<times> clean_state" where
  "clean_failed c e s = (False, notify c (MsgErrCleaning (str_of e)) s)"

text \<open>
  \<^verbatim>\<open>clean_bucket\<close> returns a boolean. The result here is the returned boolean and the
  final state of the run, or \<open>None\<close> when the run never returns.
\<close>

definition clean_bucket ::
  "s3_client \<Rightarrow> control \<Rightarrow> pool \<Rightarrow> bucket \<Rightarrow> (bool \<times> clean_state) option" where
  "clean_bucket cl c p b =
     (let s0 = notify c (MsgVerifying b) init_clean in
      case bucket_exists cl b of
        Inl e \<Rightarrow> Some (clean_failed c e s0)
      | Inr False \<Rightarrow> Some (False, notify c (MsgErrBucketMissing b) s0)
      | Inr True \<Rightarrow>
          (case is_versioned cl b of
             Inl e \<Rightarrow> Some (clean_failed c e s0)
           | Inr versioned \<Rightarrow>
               (let s1 = notify c (MsgVersioning versioned) s0 in
                case (if versioned then clean_versioned_bucket cl c p b s1
                      else clean_non_versioned_bucket cl c p b s1) of
                  None \<Rightarrow> None
                | Some (Raise e, s) \<Rightarrow> Some (clean_failed c e s)
                | Some (Return r, s) \<Rightarrow> Some (r, s)
                | Some (Done, s) \<Rightarrow> Some (True, s))))"

section \<open>Copying objects\<close>

subsection \<open>The destination key\<close>

text \<open>Python's \<^verbatim>\<open>lstrip('/')\<close>, \<^verbatim>\<open>rstrip('/')\<close> and \<^verbatim>\<open>strip('/')\<close>.\<close>

definition lstrip_slash :: "string \<Rightarrow> string" where
  "lstrip_slash x = dropWhile (\<lambda>ch. ch = CHR ''/'') x"

definition rstrip_slash :: "string \<Rightarrow> string" where
  "rstrip_slash x = rev (dropWhile (\<lambda>ch. ch = CHR ''/'') (rev x))"

definition strip_slash :: "string \<Rightarrow> string" where
  "strip_slash x = rstrip_slash (lstrip_slash x)"

text \<open>\<^verbatim>\<open>p.strip('/') if p else ''\<close>: the empty string is its own normal form.\<close>

definition normalize_prefix :: "string \<Rightarrow> string" where
  "normalize_prefix p = (if p \<noteq> [] then strip_slash p else [])"

text \<open>The two steps of the loop body, on the normalized prefixes:
  \<^verbatim>\<open>source_key[len(source_prefix):].lstrip('/')\<close> when a source prefix is set, and the
  join with the destination prefix.\<close>

definition relative_key :: "string \<Rightarrow> key \<Rightarrow> key" where
  "relative_key source_prefix source_key =
     (if source_prefix \<noteq> [] then lstrip_slash (drop (length source_prefix) source_key)
      else source_key)"

definition dest_key :: "string \<Rightarrow> string \<Rightarrow> key \<Rightarrow> key" where
  "dest_key source_prefix dest_prefix source_key =
     (let rel = relative_key source_prefix source_key in
      if dest_prefix \<noteq> [] then (if rel \<noteq> [] then dest_prefix @ ''/'' @ rel else dest_prefix)
      else rel)"

text \<open>The destination key as \<^verbatim>\<open>copy_objects\<close> computes it from its arguments.\<close>

definition copy_dest_key :: "string \<Rightarrow> string \<Rightarrow> key \<Rightarrow> key" where
  "copy_dest_key source_prefix dest_prefix source_key =
     dest_key (normalize_prefix source_prefix) (normalize_prefix dest_prefix) source_key"

subsection \<open>One copy\<close>

text \<open>\<^verbatim>\<open>_copy_single_object\<close> returns the log lines it writes, whether the copy
  succeeded, and the call it made to the store.\<close>

definition copy_single_object ::
  "s3_client \<Rightarrow> bucket \<Rightarrow> key \<Rightarrow> bucket \<Rightarrow> key \<Rightarrow> log_entry list \<times> bool \<times> store_call list" where
  "copy_single_object cl source_bucket source_key dest_bucket dkey =
     (let answer = copy_object cl source_bucket source_key dest_bucket dkey;
          call = CopyObjectCall source_bucket source_key dest_bucket dkey answer
      in case answer of
           None \<Rightarrow> ([], True, [call])
         | Some e \<Rightarrow> ([LogErrCopying source_key (str_of e)], False, [call]))"

subsection \<open>The loops of \<^verbatim>\<open>copy_objects\<close>\<close>

text \<open>A copy task is the source key and the destination key.\<close>

record copy_state = "(key \<times> key) run_base" +
  total_objects_submitted :: nat
  completed_count :: nat
  copied_count :: nat

fun submit_copies :: "string \<Rightarrow> string \<Rightarrow> key list \<Rightarrow> copy_state \<Rightarrow> copy_state" where
  "submit_copies sp dp [] s = s"
| "submit_copies sp dp (source_key # ks) s =
     submit_copies sp dp ks
       (s\<lparr>futures := futures s @ [((source_key, dest_key sp dp source_key), False)],
          total_objects_submitted := Suc (total_objects_submitted s)\<rparr>)"

fun copy_pages ::
  "control \<Rightarrow> pool \<Rightarrow> string \<Rightarrow> string \<Rightarrow> (exn + objects_page) list \<Rightarrow> copy_state
     \<Rightarrow> (exit \<times> copy_state) option" where
  "copy_pages c p sp dp [] s = Some (Done, s)"
| "copy_pages c p sp dp (Inl e # pages) s = Some (Raise e, s)"
| "copy_pages c p sp dp (Inr page # pages) s =
     (if fst (poll_cancel c s)
      then Some (Return False, cancel_futures p (notify c MsgCancelled (snd (poll_cancel c s))))
      else
        (case wait_while_paused c (snd (poll_cancel c s)) of
           None \<Rightarrow> None
         | Some (True, s1) \<Rightarrow> Some (Return False, s1)
         | Some (False, s1) \<Rightarrow>
             (case Contents page of
                None \<Rightarrow> copy_pages c p sp dp pages s1
              | Some ks \<Rightarrow>
                  (let s2 = submit_copies sp dp ks
                              (s1\<lparr>pages_processed := Suc (pages_processed s1)\<rparr>)
                   in copy_pages c p sp dp pages
                        (notify c (MsgCopyPage (pages_processed s2) (length ks)
                                     (total_objects_submitted s2)) s2)))))"

text \<open>The completion loop of the copy polls the cancel flag and then waits while paused.
  A task returns a boolean and never raises, so the \<^verbatim>\<open>except\<close> branch is not taken.\<close>

fun drain_copies ::
  "control \<Rightarrow> s3_client \<Rightarrow> bucket \<Rightarrow> bucket \<Rightarrow> (key \<times> key) list \<Rightarrow> copy_state
     \<Rightarrow> (exit \<times> copy_state) option" where
  "drain_copies c cl sb db [] s = Some (Done, s)"
| "drain_copies c cl sb db (task # rest) s =
     (if fst (poll_cancel c s)
      then Some (Return False, notify c MsgCancelled (snd (poll_cancel c s)))
      else
        (case wait_while_paused c (snd (poll_cancel c s)) of
           None \<Rightarrow> None
         | Some (True, s1) \<Rightarrow> Some (Return False, s1)
         | Some (False, s1) \<Rightarrow>
             (if fst (snd (copy_single_object cl sb (fst task) db (snd task)))
              then
                (let s2 = s1\<lparr>completed_count := Suc (completed_count s1),
                              copied_count := Suc (copied_count s1)\<rparr>
                 in drain_copies c cl sb db rest
                      (if copied_count s2 mod 50 = 0
                       then notify c (MsgCopied (copied_count s2) (completed_count s2)
                                        (total_objects_submitted s2)) s2
                       else s2))
              else drain_copies c cl sb db rest
                     (s1\<lparr>completed_count := Suc (completed_count s1)\<rparr>))))"

definition init_copy :: copy_state where
  "init_copy =
     \<lparr>cancel_polls = 0, pause_polls = 0, messages = [], futures = [], pages_processed = 0,
      total_objects_submitted = 0, completed_count = 0, copied_count = 0\<rparr>"

text \<open>\<^verbatim>\<open>except Exception as e\<close> of \<^verbatim>\<open>copy_objects\<close>.\<close>

definition copy_failed :: "control \<Rightarrow> exn \<Rightarrow> copy_state \<Rightarrow> bool \<times> copy_state" where
  "copy_failed c e s = (False, notify c (MsgErrCopying (str_of e)) s)"

definition copy_objects ::
  "s3_client \<Rightarrow> control \<Rightarrow> pool \<Rightarrow> bucket \<Rightarrow> string \<Rightarrow> bucket \<Rightarrow> string
     \<Rightarrow> (bool \<times> copy_state) option" where
  "copy_objects cl c p source_bucket source_prefix dest_bucket dest_prefix =
     (let s0 = notify c MsgVerifyingBuckets init_copy in
      case bucket_exists cl source_bucket of
        Inl e \<Rightarrow> Some (copy_failed c e s0)
      | Inr False \<Rightarrow> Some (False, notify c (MsgErrSourceMissing source_bucket) s0)
      | Inr True \<Rightarrow>
          (case bucket_exists cl dest_bucket of
             Inl e \<Rightarrow> Some (copy_failed c e s0)
           | Inr False \<Rightarrow> Some (False, notify c (MsgErrDestMissing dest_bucket) s0)
           | Inr True \<Rightarrow>
               (let sp = normalize_prefix source_prefix;
                    dp = normalize_prefix dest_prefix;
                    s1 = notify c (MsgCopying (max_workers c)) s0
                in
                if max_workers c \<le> 0
                then Some (copy_failed c
                             (OtherException ''max_workers must be greater than 0'') s1)
                else
                  (case copy_pages c p sp dp (list_objects_v2 cl source_bucket sp) s1 of
                     None \<Rightarrow> None
                   | Some (Raise e, s2) \<Rightarrow> Some (copy_failed c e s2)
                   | Some (Return r, s2) \<Rightarrow> Some (r, s2)
                   | Some (Done, s2) \<Rightarrow>
                       (let s3 = notify c (MsgCopyTotal (pages_processed s2)
                                             (total_objects_submitted s2)) s2
                        in
                        case drain_copies c cl source_bucket dest_bucket
                               (as_completed p (submitted s3)) s3 of
                          None \<Rightarrow> None
                        | Some (Raise e, s4) \<Rightarrow> Some (copy_failed c e s4)
                        | Some (Return r, s4) \<Rightarrow> Some (r, s4)
                        | Some (Done, s4) \<Rightarrow>
                            Some (True, notify c (MsgCopyCompleted (copied_count s4)) s4))))))"

section \<open>Notions used by the properties\<close>

text \<open>Nobody cancels: the cancel flag is absent or answers false at every poll.\<close>

definition never_cancelled :: "control \<Rightarrow> bool" where
  "never_cancelled c = (case cancel_flag c of None \<Rightarrow> True | Some f \<Rightarrow> \<forall>n. \<not> f n)"

text \<open>Every pause is lifted: after any poll the pause flag answers false at some later
  poll (or the flag is absent).\<close>

definition pause_always_ends :: "control \<Rightarrow> bool" where
  "pause_always_ends c =
     (case pause_flag c of None \<Rightarrow> True | Some f \<Rightarrow> \<forall>n. \<exists>m\<ge>n. \<not> f m)"

text \<open>Two states that differ at most in the poll counters.\<close>

definition polls_only :: "('t, 'a) run_base_scheme \<Rightarrow> ('t, 'a) run_base_scheme \<Rightarrow> bool" where
  "polls_only s s' = (s' = s\<lparr>cancel_polls := cancel_polls s', pause_polls := pause_polls s'\<rparr>)"

text \<open>The pages a paginator yields before its first error, and the batches the page loop
  forms from a list of pages: the batches of the first page, then those of the second, and
  so on.\<close>

fun pages_of :: "(exn + 'p) list \<Rightarrow> 'p list" where
  "pages_of [] = []"
| "pages_of (Inl e # ps) = []"
| "pages_of (Inr page # ps) = page # pages_of ps"

definition page_batches :: "('p \<Rightarrow> del_item list) \<Rightarrow> 'p list \<Rightarrow> del_item list list" where
  "page_batches flatten ps = concat (map (\<lambda>page. split_batches (flatten page)) ps)"

text \<open>The state after the body of the page loop has handled one page, from the state
  in which the wait for a pause ended.\<close>

definition after_page ::
  "control \<Rightarrow> bool \<Rightarrow> ('p \<Rightarrow> del_item list) \<Rightarrow> 'p \<Rightarrow> clean_state \<Rightarrow> clean_state" where
  "after_page c v flatten page s1 =
     (let s2 = s1\<lparr>pages_processed := Suc (pages_processed s1)\<rparr> in
      if flatten page = []
      then (if pages_processed s2 mod 10 = 0
            then notify c (MsgEmptyPage v (pages_processed s2)) s2 else s2)
      else submit_batches c (split_batches (flatten page)) s2)"

text \<open>How \<^verbatim>\<open>clean_bucket\<close> turns the exit of a cleaning function into its result.\<close>

definition clean_result :: "control \<Rightarrow> exit \<times> clean_state \<Rightarrow> bool \<times> clean_state" where
  "clean_result c x =
     (case x of
        (Raise e, s) \<Rightarrow> clean_failed c e s
      | (Return r, s) \<Rightarrow> (r, s)
      | (Done, s) \<Rightarrow> (True, s))"

text \<open>Every multi-delete on the bucket succeeds: the response lists every requested
  key as deleted and carries no errors.\<close>

definition deletes_all :: "s3_client \<Rightarrow> bucket \<Rightarrow> bool" where
  "deletes_all cl b =
     (\<forall>batch. \<exists>ds. delete_objects cl b batch = Inr \<lparr>Deleted = Some ds, Errors = None\<rparr>
                    \<and> map Key ds = map Key batch)"

text \<open>The keys a plain listing holds, and the version and delete-marker entries of a
  page of a version listing.\<close>

definition listed_keys :: "objects_page list \<Rightarrow> key list" where
  "listed_keys pages =
     concat (map (\<lambda>page. case Contents page of None \<Rightarrow> [] | Some ks \<Rightarrow> ks) pages)"

definition version_entries :: "versions_page \<Rightarrow> (key \<times> string) list" where
  "version_entries page = (case Versions page of None \<Rightarrow> [] | Some vs \<Rightarrow> vs)"

definition marker_entries :: "versions_page \<Rightarrow> (key \<times> string) list" where
  "marker_entries page = (case DeleteMarkers page of None \<Rightarrow> [] | Some ms \<Rightarrow> ms)"

text \<open>The state after the copy's page loop has handled one page, and the copy tasks of
  a list of pages.\<close>

definition after_copy_page ::
  "control \<Rightarrow> string \<Rightarrow> string \<Rightarrow> objects_page \<Rightarrow> copy_state \<Rightarrow> copy_state" where
  "after_copy_page c sp dp page s1 =
     (case Contents page of
        None \<Rightarrow> s1
      | Some ks \<Rightarrow>
          (let s2 = submit_copies sp dp ks (s1\<lparr>pages_processed := Suc (pages_processed s1)\<rparr>)
           in notify c (MsgCopyPage (pages_processed s2) (length ks)
                          (total_objects_submitted s2)) s2))"

definition copy_tasks :: "string \<Rightarrow> string \<Rightarrow> objects_page list \<Rightarrow> (key \<times> key) list" where
  "copy_tasks sp dp pages = map (\<lambda>k. (k, dest_key sp dp k)) (listed_keys pages)"

text \<open>The state after the completion loop of the copy has handled one finished task, and
  how \<^verbatim>\<open>copy_objects\<close> turns the exit of a loop into its result.\<close>

definition after_copy ::
  "control \<Rightarrow> s3_client \<Rightarrow> bucket \<Rightarrow> bucket \<Rightarrow> key \<times> key \<Rightarrow> copy_state \<Rightarrow> copy_state" where
  "after_copy c cl sb db task s1 =
     (if fst (snd (copy_single_object cl sb (fst task) db (snd task)))
      then
        (let s2 = s1\<lparr>completed_count := Suc (completed_count s1),
                      copied_count := Suc (copied_count s1)\<rparr>
         in if copied_count s2 mod 50 = 0
            then notify c (MsgCopied (copied_count s2) (completed_count s2)
                             (total_objects_submitted s2)) s2
            else s2)
      else s1\<lparr>completed_count := Suc (completed_count s1)\<rparr>)"

definition copy_result :: "control \<Rightarrow> exit \<times> copy_state \<Rightarrow> bool \<times> copy_state" where
  "copy_result c x =
     (case x of
        (Raise e, s) \<Rightarrow> copy_failed c e s
      | (Return r, s) \<Rightarrow> (r, s)
      | (Done, s) \<Rightarrow> (True, s))"

subsection \<open>The destination key in the words of the specification\<close>

text \<open>
  The specification derives the destination key from the source prefix, the destination
  prefix and the source key as they are given, in three steps: strip the source prefix
  from the source key; strip any slash that leads the rest; join the result with the
  destination prefix, if one is set, by a single slash, or take the destination prefix
  alone when nothing is left; with no destination prefix the result is the relative key.
  The slashes are stripped after the prefix, as the specification's example with the
  prefix \<open>''a/b''\<close> needs. For a key that does not begin with the prefix the first step
  means nothing: \<open>remove_prefix\<close> fails there.
\<close>

fun remove_prefix :: "string \<Rightarrow> string \<Rightarrow> string option" where
  "remove_prefix [] k = Some k"
| "remove_prefix (x # xs) [] = None"
| "remove_prefix (x # xs) (y # ys) = (if x = y then remove_prefix xs ys else None)"

definition spec_join :: "string \<Rightarrow> key \<Rightarrow> key" where
  "spec_join dst_prefix relative =
     (if dst_prefix \<noteq> []
      then (if relative = [] then dst_prefix else dst_prefix @ ''/'' @ relative)
      else relative)"

definition spec_destination_key :: "string \<Rightarrow> string \<Rightarrow> key \<Rightarrow> key option" where
  "spec_destination_key src_prefix dst_prefix src_key =
     (case remove_prefix src_prefix src_key of
        None \<Rightarrow> None
      | Some rest \<Rightarrow> Some (spec_join dst_prefix (lstrip_slash rest)))"

subsection \<open>The calls that reach the store\<close>

text \<open>
  The workers make the calls. When the operation returns, every submitted task that was
  not cancelled has run, so the calls of a run are those of its executed tasks, each made
  by the worker function; they are listed in the order of submission, the order in time
  being the pool's. \<open>requested_by\<close> are the entries a multi-delete names and
  \<open>deleted_by\<close> the entries the store reports as deleted in its answer.
\<close>

definition delete_calls :: "s3_client \<Rightarrow> bucket \<Rightarrow> clean_state \<Rightarrow> store_call list" where
  "delete_calls cl b s =
     concat (map (\<lambda>batch. snd (snd (delete_batch cl b batch))) (executed s))"

definition copy_calls :: "s3_client \<Rightarrow> bucket \<Rightarrow> bucket \<Rightarrow> copy_state \<Rightarrow> store_call list" where
  "copy_calls cl sb db s =
     concat (map (\<lambda>task. snd (snd (copy_single_object cl sb (fst task) db (snd task))))
               (executed s))"

fun requested_by :: "store_call \<Rightarrow> del_item list" where
  "requested_by (DeleteObjectsCall b items answer) = items"
| "requested_by (CopyObjectCall sb sk db dk answer) = []"

fun deleted_by :: "store_call \<Rightarrow> del_item list" where
  "deleted_by (DeleteObjectsCall b items (Inr response)) =
     (case Deleted response of None \<Rightarrow> [] | Some ds \<Rightarrow> ds)"
| "deleted_by (DeleteObjectsCall b items (Inl e)) = []"
| "deleted_by (CopyObjectCall sb sk db dk answer) = []"

text \<open>The run has seen a cancellation: some poll of the cancel flag made so far was
  answered with true.\<close>

definition cancel_seen :: "control \<Rightarrow> ('t, 'a) run_base_scheme \<Rightarrow> bool" where
  "cancel_seen c s =
     (case cancel_flag c of None \<Rightarrow> False | Some f \<Rightarrow> list_ex f [0..<cancel_polls s])"

text \<open>A paginator that raises at some round trip.\<close>

definition listing_raises :: "(exn + 'p) list \<Rightarrow> bool" where
  "listing_raises pages = list_ex isl pages"

subsection \<open>A small store to run the operations on\<close>

text \<open>
  Every bucket exists; only \<open>''archive''\<close> is versioned. The plain listing has three
  pages, the second without \<^verbatim>\<open>'Contents'\<close>; the version listing has one page with two
  versions and a delete marker. Deletes and copies succeed.
\<close>

definition example_client :: s3_client where
  "example_client =
     \<lparr>head_bucket = (\<lambda>b. None),
      get_bucket_versioning =
        (\<lambda>b. if b = ''archive'' then Inr (Some ''Enabled'') else Inr None),
      list_objects_v2 =
        (\<lambda>b prefix. [Inr \<lparr>Contents = Some [''a'', ''b'']\<rparr>, Inr \<lparr>Contents = None\<rparr>,
                      Inr \<lparr>Contents = Some [''c'']\<rparr>]),
      list_object_versions =
        (\<lambda>b prefix. [Inr \<lparr>Versions = Some [(''a'', ''1''), (''a'', ''2'')],
                           DeleteMarkers = Some [(''b'', ''3'')]\<rparr>]),
      delete_objects = (\<lambda>b items. Inr \<lparr>Deleted = Some items, Errors = None\<rparr>),
      copy_object = (\<lambda>sb sk db dk. None)\<rparr>"

definition example_control :: control where
  "example_control =
     \<lparr>progress_callback = True, max_workers = 10, cancel_flag = None, pause_flag = None\<rparr>"

definition example_pool :: pool where
  "example_pool = \<lparr>still_pending = (\<lambda>i. True), finish_time = (\<lambda>i. 0)\<rparr>"

definition plain_item :: "key \<Rightarrow> del_item" where
  "plain_item k = \<lparr>Key = k, VersionId = None\<rparr>"

definition version_item :: "key \<Rightarrow> string \<Rightarrow> del_item" where
  "version_item k v = \<lparr>Key = k, VersionId = Some v\<rparr>"

text \<open>The final state of cleaning the plain bucket \<open>''logs''\<close> of the example.\<close>

definition example_final :: clean_state where
  "example_final =
     \<lparr>cancel_polls = 0, pause_polls = 0,
      messages =
        [MsgVerifying ''logs'', MsgVersioning False, MsgDeleting False 10, MsgTotal 3 2,
         MsgDeleted False 2 1 2, MsgDeleted False 3 2 2, MsgCleanupCompleted False 3],
      futures = [([plain_item ''a'', plain_item ''b''], False), ([plain_item ''c''], False)],
      pages_processed = 3, batches_created = 2, completed_batches = 2, deleted_count = 3\<rparr>"

text \<open>A caller that pauses the run for the first two polls of the pause flag and never
  cancels, with a single worker and no progress callback; and the final state of cleaning
  \<open>''logs''\<close> under it.\<close>

definition pausing_control :: control where
  "pausing_control =
     \<lparr>progress_callback = False, max_workers = 1, cancel_flag = Some (\<lambda>n. False),
      pause_flag = Some (\<lambda>n. n < 2)\<rparr>"

definition paused_final :: clean_state where
  "paused_final =
     \<lparr>cancel_polls = 7, pause_polls = 5, messages = [],
      futures = [([plain_item ''a'', plain_item ''b''], False), ([plain_item ''c''], False)],
      pages_processed = 3, batches_created = 2, completed_batches = 2, deleted_count = 3\<rparr>"

text \<open>The final state of cleaning the versioned bucket \<open>''archive''\<close> of the example.\<close>

definition archive_final :: clean_state where
  "archive_final =
     \<lparr>cancel_polls = 0, pause_polls = 0,
      messages =
        [MsgVerifying ''archive'', MsgVersioning True, MsgDeleting True 10, MsgTotal 1 1,
         MsgDeleted True 3 1 1, MsgCleanupCompleted True 3],
      futures = [([version_item ''a'' ''1'', version_item ''a'' ''2'',
                   version_item ''b'' ''3''], False)],
      pages_processed = 1, batches_created = 1, completed_batches = 1, deleted_count = 3\<rparr>"

text \<open>
  A store with trouble: the versioning query is refused, every multi-delete removes only
  the first entry of the batch and reports an error for each of the others, and the copy
  of one key is refused. The final states of cleaning \<open>''logs''\<close> and of copying its
  prefix \<open>''/logs/2023/''\<close> to \<open>''archive/''\<close> in \<open>''backup''\<close>.
\<close>

definition flaky_client :: s3_client where
  "flaky_client =
     \<lparr>head_bucket = (\<lambda>b. None),
      get_bucket_versioning = (\<lambda>b. Inl (ClientError ''AccessDenied'')),
      list_objects_v2 =
        (\<lambda>b prefix. [Inr \<lparr>Contents = Some [''logs/2023/01/a.log'', ''logs/2023'']\<rparr>]),
      list_object_versions = (\<lambda>b prefix. []),
      delete_objects =
        (\<lambda>b items. Inr \<lparr>Deleted = Some (take 1 items),
                          Errors = Some (map (\<lambda>i. (Key i, ''AccessDenied'')) (drop 1 items))\<rparr>),
      copy_object =
        (\<lambda>sb sk db dk. if sk = ''logs/2023'' then Some (ClientError ''AccessDenied'')
                        else None)\<rparr>"

definition flaky_clean_final :: clean_state where
  "flaky_clean_final =
     \<lparr>cancel_polls = 0, pause_polls = 0,
      messages =
        [MsgVerifying ''logs'', MsgVersioning False, MsgDeleting False 10, MsgTotal 1 1,
         MsgDeleted False 1 1 1, MsgCleanupCompleted False 1],
      futures = [([plain_item ''logs/2023/01/a.log'', plain_item ''logs/2023''], False)],
      pages_processed = 1, batches_created = 1, completed_batches = 1, deleted_count = 1\<rparr>"

definition flaky_copy_final :: copy_state where
  "flaky_copy_final =
     \<lparr>cancel_polls = 0, pause_polls = 0,
      messages =
        [MsgVerifyingBuckets, MsgCopying 10, MsgCopyPage 1 2 2, MsgCopyTotal 1 2,
         MsgCopyCompleted 1],
      futures = [((''logs/2023/01/a.log'', ''archive/01/a.log''), False),
                 ((''logs/2023'', ''archive''), False)],
      pages_processed = 1, total_objects_submitted = 2, completed_count = 2,
      copied_count = 1\<rparr>"

text \<open>
  A caller with one worker who cancels between the first and the second poll of the cancel
  flag, and the final state of cleaning \<open>''logs''\<close> of the example under it, with a pool
  whose worker has not yet taken the first batch when the driver cancels.
\<close>

definition cancelling_control :: control where
  "cancelling_control =
     \<lparr>progress_callback = True, max_workers = 1, cancel_flag = Some (\<lambda>n. 1 \<le> n),
      pause_flag = None\<rparr>"

definition cancelled_final :: clean_state where
  "cancelled_final =
     \<lparr>cancel_polls = 2, pause_polls = 0,
      messages =
        [MsgVerifying ''logs'', MsgVersioning False, MsgDeleting False 1, MsgCancelled],
      futures = [([plain_item ''a'', plain_item ''b''], True)],
      pages_processed = 1, batches_created = 1, completed_batches = 0, deleted_count = 0\<rparr>"

text \<open>The state of that run when the second page is about to poll the cancel flag.\<close>

definition checkpoint_state :: clean_state where
  "checkpoint_state =
     \<lparr>cancel_polls = 1, pause_polls = 0,
      messages = [MsgVerifying ''logs'', MsgVersioning False, MsgDeleting False 1],
      futures = [([plain_item ''a'', plain_item ''b''], False)],
      pages_processed = 1, batches_created = 1, completed_batches = 0, deleted_count = 0\<rparr>"

text \<open>
  A store whose plain listing raises a \<^verbatim>\<open>ClientError\<close> at the second round trip, and one
  whose versioning query raises an exception that is not a \<^verbatim>\<open>ClientError\<close>; the final
  states of cleaning \<open>''logs''\<close> and of copying from it.
\<close>

definition broken_client :: s3_client where
  "broken_client =
     example_client\<lparr>list_objects_v2 :=
       (\<lambda>b prefix. [Inr \<lparr>Contents = Some [''a'', ''b'']\<rparr>, Inl (ClientError ''SlowDown'')])\<rparr>"

definition broken_final :: clean_state where
  "broken_final =
     \<lparr>cancel_polls = 0, pause_polls = 0,
      messages =
        [MsgVerifying ''logs'', MsgVersioning False, MsgDeleting False 10,
         MsgErrDeleting False ''SlowDown''],
      futures = [([plain_item ''a'', plain_item ''b''], False)],
      pages_processed = 1, batches_created = 1, completed_batches = 0, deleted_count = 0\<rparr>"

definition broken_copy_final :: copy_state where
  "broken_copy_final =
     \<lparr>cancel_polls = 0, pause_polls = 0,
      messages =
        [MsgVerifyingBuckets, MsgCopying 10, MsgCopyPage 1 2 2, MsgErrCopying ''SlowDown''],
      futures = [((''a'', ''a''), False), ((''b'', ''b''), False)],
      pages_processed = 1, total_objects_submitted = 2, completed_count = 0,
      copied_count = 0\<rparr>"

definition offline_client :: s3_client where
  "offline_client =
     example_client\<lparr>get_bucket_versioning :=
       (\<lambda>b. Inl (OtherException ''Could not connect to the endpoint URL''))\<rparr>"

definition offline_final :: clean_state where
  "offline_final =
     \<lparr>cancel_polls = 0, pause_polls = 0,
      messages =
        [MsgVerifying ''logs'', MsgErrCleaning ''Could not connect to the endpoint URL''],
      futures = [], pages_processed = 0, batches_created = 0, completed_batches = 0,
      deleted_count = 0\<rparr>"

declare wait_while_paused.simps [code]

section \<open>Basic facts\<close>

subsection \<open>Batches of a list\<close>

lemma split_batches_Nil: "split_batches [] = []"
  by (simp add: split_batches_def)

lemma ceil_div_step:
  fixes m n :: nat
  assumes "0 < n" and "0 < m"
  shows "(m + (n - 1)) div n = Suc ((m - n + (n - 1)) div n)"
proof (cases "m \<le> n")
  case True
  with assms have "n * 1 \<le> m + (n - 1)" and "m + (n - 1) < n * Suc 1" by simp_all
  then have "(m + (n - 1)) div n = 1" by (rule div_nat_eqI)
  moreover from True assms have "(m - n + (n - 1)) div n = 0" by simp
  ultimately show ?thesis by simp
next
  case False
  then have "m + (n - 1) = (m - n + (n - 1)) + n" by simp
  then have "(m + (n - 1)) div n = ((m - n + (n - 1)) + n) div n" by simp
  also have "\<dots> = (m - n + (n - 1)) div n + 1"
    using assms(1) by (intro div_add_self2) simp
  finally show ?thesis by simp
qed

lemma split_batches_rec:
  assumes "xs \<noteq> []"
  shows "split_batches xs = take 1000 xs # split_batches (drop 1000 xs)"
proof -
  from assms have "0 < length xs" by simp
  with ceil_div_step [of 1000 "length xs"]
  have n: "(length xs + 999) div 1000 = Suc ((length (drop 1000 xs) + 999) div 1000)"
    by simp
  have "[0..<Suc ((length (drop 1000 xs) + 999) div 1000)]
        = 0 # map Suc [0..<(length (drop 1000 xs) + 999) div 1000]"
    by (simp add: upt_conv_Cons map_Suc_upt del: upt_Suc)
  then show ?thesis
    unfolding split_batches_def n
    by (simp add: o_def add.commute del: upt_Suc)
qed

lemma concat_split_batches: "concat (split_batches xs) = xs"
proof (induction "length xs" arbitrary: xs rule: less_induct)
  case less
  show ?case
  proof (cases "xs = []")
    case True
    then show ?thesis by (simp add: split_batches_Nil)
  next
    case False
    then have "length (drop 1000 xs) < length xs" by (cases xs) simp_all
    then have "concat (split_batches (drop 1000 xs)) = drop 1000 xs"
      by (rule less)
    moreover from False have "split_batches xs = take 1000 xs # split_batches (drop 1000 xs)"
      by (rule split_batches_rec)
    ultimately show ?thesis by simp
  qed
qed

lemma split_batches_le: "b \<in> set (split_batches xs) \<Longrightarrow> length b \<le> 1000"
  by (auto simp: split_batches_def)

lemma split_batches_nonempty: "b \<in> set (split_batches xs) \<Longrightarrow> b \<noteq> []"
  by (auto simp: split_batches_def)

lemma split_batches_slice:
  "b \<in> set (split_batches xs) \<Longrightarrow> \<exists>i. b = take 1000 (drop i xs)"
  by (auto simp: split_batches_def)

lemma page_batches_simps [simp]:
  "page_batches fl [] = []"
  "page_batches fl (page # ps) = split_batches (fl page) @ page_batches fl ps"
  by (simp_all add: page_batches_def)

lemma page_batches_append [simp]:
  "page_batches fl (ps @ qs) = page_batches fl ps @ page_batches fl qs"
  by (simp add: page_batches_def)

lemma concat_page_batches: "concat (page_batches fl ps) = concat (map fl ps)"
  by (induction ps) (simp_all add: concat_split_batches)

lemma page_batches_le: "b \<in> set (page_batches fl ps) \<Longrightarrow> length b \<le> 1000"
  by (auto simp: page_batches_def split_batches_le)

subsection \<open>Messages and polls leave the work alone\<close>

lemma notify_frame [simp]:
  "futures (notify c m s) = futures s"
  "cancel_polls (notify c m s) = cancel_polls s"
  "pause_polls (notify c m s) = pause_polls s"
  "pages_processed (notify c m s) = pages_processed s"
  by (simp_all add: notify_def)

lemma notify_clean_frame [simp]:
  "batches_created (notify c m s) = batches_created s"
  "completed_batches (notify c m s) = completed_batches s"
  "deleted_count (notify c m s) = deleted_count s"
  by (simp_all add: notify_def)

lemma notify_copy_frame [simp]:
  "total_objects_submitted (notify c m s) = total_objects_submitted s"
  "completed_count (notify c m s) = completed_count s"
  "copied_count (notify c m s) = copied_count s"
  by (simp_all add: notify_def)

lemma polls_only_refl [simp]: "polls_only s s"
  by (simp add: polls_only_def)

lemma polls_only_trans: "polls_only s s' \<Longrightarrow> polls_only s' s'' \<Longrightarrow> polls_only s s''"
  unfolding polls_only_def
  by (metis (no_types, lifting) run_base.surjective run_base.update_convs(1,2)
      run_base.select_convs(1))

lemma polls_only_fields:
  assumes "polls_only s s'"
  shows "futures s' = futures s" and "messages s' = messages s"
    and "pages_processed s' = pages_processed s"
proof -
  from assms have e: "s' = s\<lparr>cancel_polls := cancel_polls s', pause_polls := pause_polls s'\<rparr>"
    by (simp add: polls_only_def)
  show "futures s' = futures s" by (subst e) simp
  show "messages s' = messages s" by (subst e) simp
  show "pages_processed s' = pages_processed s" by (subst e) simp
qed

lemma polls_only_clean_fields:
  fixes s :: clean_state
  assumes "polls_only s s'"
  shows "batches_created s' = batches_created s" and "completed_batches s' = completed_batches s"
    and "deleted_count s' = deleted_count s"
proof -
  from assms have e: "s' = s\<lparr>cancel_polls := cancel_polls s', pause_polls := pause_polls s'\<rparr>"
    by (simp add: polls_only_def)
  show "batches_created s' = batches_created s" by (subst e) simp
  show "completed_batches s' = completed_batches s" by (subst e) simp
  show "deleted_count s' = deleted_count s" by (subst e) simp
qed

lemma polls_only_copy_fields:
  fixes s :: copy_state
  assumes "polls_only s s'"
  shows "total_objects_submitted s' = total_objects_submitted s"
    and "completed_count s' = completed_count s" and "copied_count s' = copied_count s"
proof -
  from assms have e: "s' = s\<lparr>cancel_polls := cancel_polls s', pause_polls := pause_polls s'\<rparr>"
    by (simp add: polls_only_def)
  show "total_objects_submitted s' = total_objects_submitted s" by (subst e) simp
  show "completed_count s' = completed_count s" by (subst e) simp
  show "copied_count s' = copied_count s" by (subst e) simp
qed

lemma poll_cancel_polls_only [simp]: "polls_only s (snd (poll_cancel c s))"
  by (cases "cancel_flag c") (simp_all add: poll_cancel_def polls_only_def)

lemma poll_pause_polls_only [simp]: "polls_only s (snd (poll_pause c s))"
  by (cases "pause_flag c") (simp_all add: poll_pause_def polls_only_def)

lemmas poll_cancel_fields [simp] =
  polls_only_fields [OF poll_cancel_polls_only]
  polls_only_clean_fields [OF poll_cancel_polls_only]
  polls_only_copy_fields [OF poll_cancel_polls_only]

lemma wait_while_paused_polls_only:
  fixes s :: "('t, 'a) run_base_scheme"
  assumes "wait_while_paused c s = Some y"
  shows "polls_only s (snd y)"
proof (rule wait_while_paused.raw_induct [where P = "\<lambda>c s y. polls_only s (snd y)", OF _ assms])
  fix w :: "control \<Rightarrow> ('t, 'a) run_base_scheme \<Rightarrow> (bool \<times> ('t, 'a) run_base_scheme) option"
  fix c and s :: "('t, 'a) run_base_scheme" and y
  let ?s1 = "snd (poll_pause c s)"
  let ?s2 = "snd (poll_cancel c ?s1)"
  assume IH: "\<And>c s y. w c s = Some y \<Longrightarrow> polls_only s (snd y)"
  assume eq: "(if fst (poll_pause c s)
               then if fst (poll_cancel c ?s1) then Some (True, ?s2) else w c ?s2
               else Some (False, ?s1)) = Some y"
  have s2: "polls_only s ?s2"
    by (rule polls_only_trans [of s ?s1]) simp_all
  show "polls_only s (snd y)"
  proof (cases "fst (poll_pause c s)")
    case False
    with eq have "y = (False, ?s1)" by simp
    then show ?thesis by simp
  next
    case paused: True
    show ?thesis
    proof (cases "fst (poll_cancel c ?s1)")
      case True
      with paused eq have "y = (True, ?s2)" by simp
      with s2 show ?thesis by simp
    next
      case False
      with paused eq have "w c ?s2 = Some y" by simp
      then have "polls_only ?s2 (snd y)" by (rule IH)
      with s2 show ?thesis by (rule polls_only_trans)
    qed
  qed
qed

subsection \<open>The pause loop\<close>

lemma never_cancelled_poll [simp]: "never_cancelled c \<Longrightarrow> \<not> fst (poll_cancel c s)"
  by (cases "cancel_flag c") (simp_all add: never_cancelled_def poll_cancel_def)

lemma wait_while_paused_not_cancelled:
  fixes s :: "('t, 'a) run_base_scheme"
  assumes "wait_while_paused c s = Some y" and nc: "never_cancelled c"
  shows "\<not> fst y"
proof -
  have "c = c \<longrightarrow> \<not> fst y"
  proof (rule wait_while_paused.raw_induct [where P = "\<lambda>c' s y. c' = c \<longrightarrow> \<not> fst y", OF _ assms(1)])
    fix w :: "control \<Rightarrow> ('t, 'a) run_base_scheme \<Rightarrow> (bool \<times> ('t, 'a) run_base_scheme) option"
    fix c' and s :: "('t, 'a) run_base_scheme" and y
    let ?s1 = "snd (poll_pause c' s)"
    let ?s2 = "snd (poll_cancel c' ?s1)"
    assume IH: "\<And>c' s y. w c' s = Some y \<Longrightarrow> c' = c \<longrightarrow> \<not> fst y"
    assume eq: "(if fst (poll_pause c' s)
                 then if fst (poll_cancel c' ?s1) then Some (True, ?s2) else w c' ?s2
                 else Some (False, ?s1)) = Some y"
    show "c' = c \<longrightarrow> \<not> fst y"
    proof
      assume "c' = c"
      with nc have "\<not> fst (poll_cancel c' ?s1)" by simp
      with eq IH \<open>c' = c\<close> show "\<not> fst y"
        by (cases "fst (poll_pause c' s)") auto
    qed
  qed
  then show ?thesis by simp
qed

lemma wait_while_paused_returns:
  fixes s :: "('t, 'a) run_base_scheme"
  assumes "pause_always_ends c"
  shows "\<exists>y. wait_while_paused c s = Some y"
proof (cases "pause_flag c")
  case None
  then have "\<not> fst (poll_pause c s)" by (simp add: poll_pause_def)
  then have "wait_while_paused c s = Some (False, snd (poll_pause c s))"
    by (subst wait_while_paused.simps) simp
  then show ?thesis by blast
next
  case (Some f)
  with assms obtain m where "pause_polls s \<le> m" and "\<not> f m"
    by (auto simp: pause_always_ends_def)
  then show ?thesis
  proof (induction "m - pause_polls s" arbitrary: s)
    case 0
    then have "\<not> fst (poll_pause c s)" using Some by (simp add: poll_pause_def)
    then have "wait_while_paused c s = Some (False, snd (poll_pause c s))"
      by (subst wait_while_paused.simps) simp
    then show ?case by blast
  next
    case (Suc d)
    let ?s1 = "snd (poll_pause c s)"
    let ?s2 = "snd (poll_cancel c ?s1)"
    have p1: "pause_polls ?s1 = Suc (pause_polls s)"
      using Some by (simp add: poll_pause_def)
    have "pause_polls ?s2 = pause_polls ?s1"
      by (cases "cancel_flag c") (simp_all add: poll_cancel_def)
    with p1 have p2: "pause_polls ?s2 = Suc (pause_polls s)" by simp
    with Suc.hyps(2) Suc.prems have "d = m - pause_polls ?s2" "pause_polls ?s2 \<le> m"
      by simp_all
    then have "\<exists>y. wait_while_paused c ?s2 = Some y"
      using Suc.prems(2) by (rule Suc.hyps(1))
    then obtain y where y: "wait_while_paused c ?s2 = Some y" by blast
    have "wait_while_paused c s =
            (if fst (poll_pause c s)
             then if fst (poll_cancel c ?s1) then Some (True, ?s2) else Some y
             else Some (False, ?s1))"
      by (subst wait_while_paused.simps) (simp add: y)
    then show ?case by auto
  qed
qed

text \<open>Without cancellation and with every pause lifted, the wait ends normally.\<close>

lemma wait_while_paused_continues:
  fixes s :: "('t, 'a) run_base_scheme"
  assumes "never_cancelled c" and "pause_always_ends c"
  shows "\<exists>s1. wait_while_paused c s = Some (False, s1) \<and> polls_only s s1"
proof -
  from assms(2) obtain y where y: "wait_while_paused c s = Some y"
    using wait_while_paused_returns by blast
  from y assms(1) have "\<not> fst y" by (rule wait_while_paused_not_cancelled)
  moreover from y have "polls_only s (snd y)" by (rule wait_while_paused_polls_only)
  ultimately show ?thesis using y by (cases y) auto
qed

subsection \<open>Submitting and cancelling\<close>

lemma submit_batches_futures [simp]:
  "futures (submit_batches c bs s) = futures s @ map (\<lambda>b. (b, False)) bs"
  by (induction bs arbitrary: s) (simp_all add: Let_def)

lemma submit_batches_created [simp]:
  "batches_created (submit_batches c bs s) = batches_created s + length bs"
  by (induction bs arbitrary: s) (simp_all add: Let_def)

lemma submit_batches_frame [simp]:
  "pages_processed (submit_batches c bs s) = pages_processed s"
  "completed_batches (submit_batches c bs s) = completed_batches s"
  "deleted_count (submit_batches c bs s) = deleted_count s"
  "cancel_polls (submit_batches c bs s) = cancel_polls s"
  "pause_polls (submit_batches c bs s) = pause_polls s"
  by (induction bs arbitrary: s) (simp_all add: Let_def)

lemma submitted_notify [simp]: "submitted (notify c m s) = submitted s"
  by (simp add: submitted_def)

lemma submitted_submit_batches [simp]:
  "submitted (submit_batches c bs s) = submitted s @ bs"
  by (simp add: submitted_def o_def)

lemma map_fst_snd_enumerate: "map (\<lambda>x. fst (snd x)) (enumerate n xs) = map fst xs"
  by (induction xs arbitrary: n) simp_all

lemma cancel_futures_submitted [simp]: "submitted (cancel_futures p s) = submitted s"
  by (simp add: submitted_def cancel_futures_def case_prod_beta o_def map_fst_snd_enumerate)

lemma cancel_futures_frame [simp]:
  "length (futures (cancel_futures p s)) = length (futures s)"
  "cancel_polls (cancel_futures p s) = cancel_polls s"
  "pause_polls (cancel_futures p s) = pause_polls s"
  "messages (cancel_futures p s) = messages s"
  "pages_processed (cancel_futures p s) = pages_processed s"
  by (simp_all add: cancel_futures_def)

lemma cancel_futures_clean_frame [simp]:
  "batches_created (cancel_futures p s) = batches_created s"
  "completed_batches (cancel_futures p s) = completed_batches s"
  "deleted_count (cancel_futures p s) = deleted_count s"
  by (simp_all add: cancel_futures_def)

lemma polls_only_submitted: "polls_only s s' \<Longrightarrow> submitted s' = submitted s"
  using polls_only_fields(1) [of s s'] by (simp add: submitted_def)

subsection \<open>The page loop\<close>

lemma clean_pages_Inr:
  "clean_pages c p v fl (Inr page # pages) s =
     (if fst (poll_cancel c s)
      then Some (Return False, cancel_futures p (notify c MsgCancelled (snd (poll_cancel c s))))
      else
        (case wait_while_paused c (snd (poll_cancel c s)) of
           None \<Rightarrow> None
         | Some (True, s1) \<Rightarrow> Some (Return False, s1)
         | Some (False, s1) \<Rightarrow> clean_pages c p v fl pages (after_page c v fl page s1)))"
  by (simp add: after_page_def Let_def split: option.splits bool.splits)

lemma clean_pages_Inr_cases:
  assumes "clean_pages c p v fl (Inr page # pages) s = Some (ex, s')"
  obtains
    (cancelled) "fst (poll_cancel c s)" and "ex = Return False"
      and "s' = cancel_futures p (notify c MsgCancelled (snd (poll_cancel c s)))"
  | (cancelled_paused) "\<not> fst (poll_cancel c s)"
      and "wait_while_paused c (snd (poll_cancel c s)) = Some (True, s')" and "ex = Return False"
  | (continue) s1 where "\<not> fst (poll_cancel c s)"
      and "wait_while_paused c (snd (poll_cancel c s)) = Some (False, s1)"
      and "clean_pages c p v fl pages (after_page c v fl page s1) = Some (ex, s')"
proof -
  note a = assms [unfolded clean_pages_Inr]
  show ?thesis
  proof (cases "fst (poll_cancel c s)")
    case True
    with a show ?thesis by (intro cancelled) simp_all
  next
    case False
    with a obtain r s1 where w: "wait_while_paused c (snd (poll_cancel c s)) = Some (r, s1)"
      by (cases "wait_while_paused c (snd (poll_cancel c s))") auto
    show ?thesis
    proof (cases r)
      case True
      with a False w show ?thesis by (intro cancelled_paused) simp_all
    next
      case r: False
      with a False w show ?thesis by (intro continue [of s1]) simp_all
    qed
  qed
qed

lemma after_page_frame [simp]:
  "futures (after_page c v fl page s) = futures s @ map (\<lambda>b. (b, False)) (split_batches (fl page))"
  "batches_created (after_page c v fl page s) = batches_created s + length (split_batches (fl page))"
  "pages_processed (after_page c v fl page s) = Suc (pages_processed s)"
  "completed_batches (after_page c v fl page s) = completed_batches s"
  "deleted_count (after_page c v fl page s) = deleted_count s"
  "cancel_polls (after_page c v fl page s) = cancel_polls s"
  "pause_polls (after_page c v fl page s) = pause_polls s"
  by (simp_all add: after_page_def Let_def split_batches_Nil)

lemma submitted_after_page [simp]:
  "submitted (after_page c v fl page s) = submitted s @ split_batches (fl page)"
  by (simp add: submitted_def o_def)

text \<open>What the page loop has submitted, whatever its exit.\<close>

lemma clean_pages_submitted:
  "clean_pages c p v fl pages s = Some (ex, s') \<Longrightarrow>
   \<exists>n. submitted s' = submitted s @ page_batches fl (take n (pages_of pages))"
proof (induction pages arbitrary: s)
  case Nil
  then show ?case by simp
next
  case (Cons pg pages)
  show ?case
  proof (cases pg)
    case (Inl e)
    with Cons.prems show ?thesis by simp
  next
    case (Inr page)
    from Cons.prems [unfolded Inr] show ?thesis
    proof (cases rule: clean_pages_Inr_cases)
      case cancelled
      then have "submitted s' = submitted s" by (simp add: polls_only_submitted)
      then show ?thesis by (intro exI [of _ 0]) simp
    next
      case cancelled_paused
      from wait_while_paused_polls_only [OF cancelled_paused(2)]
      have "submitted s' = submitted s"
        by (simp add: polls_only_submitted)
      then show ?thesis by (intro exI [of _ 0]) simp
    next
      case (continue s1)
      from wait_while_paused_polls_only [OF continue(2)]
      have s1: "submitted s1 = submitted s" by (simp add: polls_only_submitted)
      from Cons.IH [OF continue(3)] obtain n where
        "submitted s' = submitted (after_page c v fl page s1) @ page_batches fl (take n (pages_of pages))"
        by blast
      with s1 Inr have "submitted s' = submitted s @ page_batches fl (take (Suc n) (pages_of (pg # pages)))"
        by simp
      then show ?thesis by blast
    qed
  qed
qed

text \<open>The counter of created batches follows the list of futures.\<close>

lemma clean_pages_created:
  "clean_pages c p v fl pages s = Some (ex, s') \<Longrightarrow>
   batches_created s = length (futures s) \<Longrightarrow> batches_created s' = length (futures s')"
proof (induction pages arbitrary: s)
  case Nil
  then show ?case by simp
next
  case (Cons pg pages)
  show ?case
  proof (cases pg)
    case (Inl e)
    with Cons.prems show ?thesis by simp
  next
    case (Inr page)
    from Cons.prems(1) [unfolded Inr] show ?thesis
    proof (cases rule: clean_pages_Inr_cases)
      case cancelled
      with Cons.prems(2) show ?thesis by simp
    next
      case cancelled_paused
      from wait_while_paused_polls_only [OF cancelled_paused(2)]
      have "polls_only s s'" by (auto intro: polls_only_trans [OF poll_cancel_polls_only])
      from polls_only_fields(1) [OF this] polls_only_clean_fields(1) [OF this] Cons.prems(2)
      show ?thesis by simp
    next
      case (continue s1)
      from wait_while_paused_polls_only [OF continue(2)]
      have "polls_only s s1" by (auto intro: polls_only_trans [OF poll_cancel_polls_only])
      from polls_only_fields(1) [OF this] polls_only_clean_fields(1) [OF this] Cons.prems(2)
      have "batches_created s1 = length (futures s1)" by simp
      then have "batches_created (after_page c v fl page s1) = length (futures (after_page c v fl page s1))"
        by simp
      with continue(3) show ?thesis by (rule Cons.IH)
    qed
  qed
qed

subsection \<open>The cleaning functions\<close>

lemma drain_batches_frame [simp]:
  "futures (snd (drain_batches c cl b v bs s)) = futures s"
  "batches_created (snd (drain_batches c cl b v bs s)) = batches_created s"
  "pages_processed (snd (drain_batches c cl b v bs s)) = pages_processed s"
  by (induction bs arbitrary: s) (simp_all add: Let_def)

lemma submitted_drain_batches [simp]:
  "submitted (snd (drain_batches c cl b v bs s)) = submitted s"
  by (simp add: submitted_def)

lemma drain_batches_exit: "fst (drain_batches c cl b v bs s) \<in> {Done, Return False}"
  by (induction bs arbitrary: s) (simp_all add: Let_def)

lemma catch_client_error_eq:
  "catch_client_error c v (ex, s) =
     (case ex of
        Raise (ClientError m) \<Rightarrow> (Return False, notify c (MsgErrDeleting v m) s)
      | _ \<Rightarrow> (ex, s))"
  by (cases "(c, v, (ex, s))" rule: catch_client_error.cases) auto

lemma catch_client_error_frame [simp]:
  "futures (snd (catch_client_error c v (ex, s))) = futures s"
  "batches_created (snd (catch_client_error c v (ex, s))) = batches_created s"
  "completed_batches (snd (catch_client_error c v (ex, s))) = completed_batches s"
  "deleted_count (snd (catch_client_error c v (ex, s))) = deleted_count s"
  "cancel_polls (snd (catch_client_error c v (ex, s))) = cancel_polls s"
  by (simp_all add: catch_client_error_eq split: exit.splits exn.splits)

lemma submitted_catch_client_error [simp]:
  "submitted (snd (catch_client_error c v (ex, s))) = submitted s"
  by (simp add: submitted_def)

text \<open>The ways in which the body of a cleaning function ends.\<close>

lemma clean_with_pool_cases:
  assumes "clean_with_pool cl c p b v fl pages s0 = Some (ex, s')"
  obtains
    (no_pool) "max_workers c \<le> 0"
      and "ex = Raise (OtherException ''max_workers must be greater than 0'')"
      and "s' = notify c (MsgDeleting v (max_workers c)) s0"
  | (stopped) ex2 s2 where "0 < max_workers c"
      and "clean_pages c p v fl pages (notify c (MsgDeleting v (max_workers c)) s0) = Some (ex2, s2)"
      and "ex2 \<noteq> Done" and "(ex, s') = catch_client_error c v (ex2, s2)"
  | (drained) s2 where "0 < max_workers c"
      and "clean_pages c p v fl pages (notify c (MsgDeleting v (max_workers c)) s0) = Some (Done, s2)"
      and "drain_batches c cl b v (as_completed p (submitted s2))
             (notify c (MsgTotal (pages_processed s2) (batches_created s2)) s2) = (Return False, s')"
      and "ex = Return False"
  | (completed) s2 s4 where "0 < max_workers c"
      and "clean_pages c p v fl pages (notify c (MsgDeleting v (max_workers c)) s0) = Some (Done, s2)"
      and "drain_batches c cl b v (as_completed p (submitted s2))
             (notify c (MsgTotal (pages_processed s2) (batches_created s2)) s2) = (Done, s4)"
      and "ex = Return True" and "s' = notify c (MsgCleanupCompleted v (deleted_count s4)) s4"
proof (cases "max_workers c \<le> 0")
  case True
  with assms show ?thesis by (intro no_pool) (simp_all add: clean_with_pool_def Let_def)
next
  case False
  let ?s1 = "notify c (MsgDeleting v (max_workers c)) s0"
  from False assms obtain ex2 s2 where cp: "clean_pages c p v fl pages ?s1 = Some (ex2, s2)"
    by (cases "clean_pages c p v fl pages ?s1") (auto simp: clean_with_pool_def Let_def)
  show ?thesis
  proof (cases "ex2 = Done")
    case ne: False
    with False assms cp have "(ex, s') = catch_client_error c v (ex2, s2)"
      by (cases ex2) (auto simp: clean_with_pool_def Let_def)
    with False cp ne show ?thesis by (intro stopped [of ex2 s2]) simp_all
  next
    case True
    let ?s3 = "notify c (MsgTotal (pages_processed s2) (batches_created s2)) s2"
    obtain ex4 s4 where d: "drain_batches c cl b v (as_completed p (submitted s2)) ?s3 = (ex4, s4)"
      by (cases "drain_batches c cl b v (as_completed p (submitted s2)) ?s3")
    from drain_batches_exit [of c cl b v "as_completed p (submitted s2)" ?s3] d
    have "ex4 = Done \<or> ex4 = Return False" by simp
    then show ?thesis
    proof
      assume "ex4 = Done"
      with False assms cp True d show ?thesis
        by (intro completed [of s2 s4]) (simp_all add: clean_with_pool_def Let_def)
    next
      assume "ex4 = Return False"
      with False assms cp True d show ?thesis
        by (intro drained [of s2]) (simp_all add: clean_with_pool_def Let_def)
    qed
  qed
qed

lemma clean_with_pool_submitted:
  assumes "clean_with_pool cl c p b v fl pages s0 = Some (ex, s')"
  shows "\<exists>n. submitted s' = submitted s0 @ page_batches fl (take n (pages_of pages))"
  using assms
proof (cases rule: clean_with_pool_cases)
  case no_pool
  then have "submitted s' = submitted s0" by simp
  then show ?thesis by (intro exI [of _ 0]) simp
next
  case (stopped ex2 s2)
  from stopped(4) have "s' = snd (catch_client_error c v (ex2, s2))"
    by (metis snd_conv)
  then have "submitted s' = submitted s2" by simp
  with clean_pages_submitted [OF stopped(2)] show ?thesis by simp
next
  case (drained s2)
  from drained(3) have "submitted s' = submitted s2"
    by (metis submitted_drain_batches submitted_notify snd_conv)
  with clean_pages_submitted [OF drained(2)] show ?thesis by simp
next
  case (completed s2 s4)
  from completed(3) have "submitted s4 = submitted s2"
    by (metis submitted_drain_batches submitted_notify snd_conv)
  with completed(5) have "submitted s' = submitted s2" by simp
  with clean_pages_submitted [OF completed(2)] show ?thesis by simp
qed

lemma clean_result_simps [simp]:
  "clean_result c (Return r, s) = (r, s)"
  "clean_result c (Raise e, s) = clean_failed c e s"
  "clean_result c (Done, s) = (True, s)"
  by (simp_all add: clean_result_def)

lemma submitted_clean_result [simp]: "submitted (snd (clean_result c (ex, s))) = submitted s"
  by (cases ex) (simp_all add: clean_failed_def)

lemma clean_bucket_cases:
  assumes "clean_bucket cl c p b = Some (r, s)"
  obtains
    (not_verified) "bucket_exists cl b \<noteq> Inr True" and "\<not> r" and "futures s = []"
  | (no_status) e where "bucket_exists cl b = Inr True" and "is_versioned cl b = Inl e"
      and "\<not> r" and "futures s = []"
  | (plain) ex s' where "bucket_exists cl b = Inr True" and "is_versioned cl b = Inr False"
      and "clean_with_pool cl c p b False objects_in_page (list_objects_v2 cl b [])
             (notify c (MsgVersioning False) (notify c (MsgVerifying b) init_clean)) = Some (ex, s')"
      and "(r, s) = clean_result c (ex, s')"
  | (versioned) ex s' where "bucket_exists cl b = Inr True" and "is_versioned cl b = Inr True"
      and "clean_with_pool cl c p b True objects_to_delete (list_object_versions cl b [])
             (notify c (MsgVersioning True) (notify c (MsgVerifying b) init_clean)) = Some (ex, s')"
      and "(r, s) = clean_result c (ex, s')"
proof (cases "bucket_exists cl b")
  case (Inl e)
  with assms show ?thesis
    by (intro not_verified) (auto simp: clean_bucket_def clean_failed_def init_clean_def)
next
  case (Inr ok)
  show ?thesis
  proof (cases ok)
    case False
    with Inr assms show ?thesis
      by (intro not_verified) (auto simp: clean_bucket_def init_clean_def)
  next
    case True
    with Inr have be: "bucket_exists cl b = Inr True" by simp
    show ?thesis
    proof (cases "is_versioned cl b")
      case (Inl e)
      with be assms show ?thesis
        by (intro no_status [of e]) (auto simp: clean_bucket_def clean_failed_def init_clean_def)
    next
      case (Inr v)
      show ?thesis
      proof (cases v)
        case True
        with Inr be assms obtain ex s' where
          "clean_versioned_bucket cl c p b
             (notify c (MsgVersioning True) (notify c (MsgVerifying b) init_clean)) = Some (ex, s')"
          and "(r, s) = clean_result c (ex, s')"
          by (auto simp: clean_bucket_def Let_def clean_result_def split: option.splits exit.splits)
        with be Inr True show ?thesis
          by (intro versioned [of ex s']) (simp_all add: clean_versioned_bucket_def)
      next
        case False
        with Inr be assms obtain ex s' where
          "clean_non_versioned_bucket cl c p b
             (notify c (MsgVersioning False) (notify c (MsgVerifying b) init_clean)) = Some (ex, s')"
          and "(r, s) = clean_result c (ex, s')"
          by (auto simp: clean_bucket_def Let_def clean_result_def split: option.splits exit.splits)
        with be Inr False show ?thesis
          by (intro plain [of ex s']) (simp_all add: clean_non_versioned_bucket_def)
      qed
    qed
  qed
qed

lemma submitted_init [simp]: "submitted init_clean = []"
  by (simp add: submitted_def init_clean_def)

lemma clean_bucket_submitted:
  assumes "clean_bucket cl c p b = Some (r, s)"
  shows "(\<exists>n. submitted s = page_batches objects_in_page (take n (pages_of (list_objects_v2 cl b []))))
       \<or> (\<exists>n. submitted s = page_batches objects_to_delete (take n (pages_of (list_object_versions cl b []))))"
  using assms
proof (cases rule: clean_bucket_cases)
  case not_verified
  then have "submitted s = page_batches objects_in_page (take 0 (pages_of (list_objects_v2 cl b [])))"
    by (simp add: submitted_def)
  then show ?thesis by blast
next
  case (no_status e)
  then have "submitted s = page_batches objects_in_page (take 0 (pages_of (list_objects_v2 cl b [])))"
    by (simp add: submitted_def)
  then show ?thesis by blast
next
  case (plain ex s')
  from plain(4) have "s = snd (clean_result c (ex, s'))" by (metis snd_conv)
  then have "submitted s = submitted s'" by simp
  with clean_with_pool_submitted [OF plain(3)] show ?thesis by simp
next
  case (versioned ex s')
  from versioned(4) have "s = snd (clean_result c (ex, s'))" by (metis snd_conv)
  then have "submitted s = submitted s'" by simp
  with clean_with_pool_submitted [OF versioned(3)] show ?thesis by simp
qed

lemma wait_while_paused_no_flag:
  "pause_flag c = None \<Longrightarrow> wait_while_paused c s = Some (False, s)"
  by (subst wait_while_paused.simps) (simp add: poll_pause_def)

section \<open>Runs of the example\<close>

lemma example_run:
  "clean_bucket example_client example_control example_pool ''logs'' = Some (True, example_final)"
  by code_simp

lemma example_final_submitted:
  "submitted example_final = [[plain_item ''a'', plain_item ''b''], [plain_item ''c'']]"
  by (simp add: submitted_def example_final_def)

lemma executed_subset: "set (executed s) \<subseteq> set (submitted s)"
  by (auto simp: executed_def submitted_def)

lemma clean_pages_frame:
  "clean_pages c p v fl pages s = Some (ex, s') \<Longrightarrow>
   completed_batches s' = completed_batches s \<and> deleted_count s' = deleted_count s"
proof (induction pages arbitrary: s)
  case Nil
  then show ?case by simp
next
  case (Cons pg pages)
  show ?case
  proof (cases pg)
    case (Inl e)
    with Cons.prems show ?thesis by simp
  next
    case (Inr page)
    from Cons.prems [unfolded Inr] show ?thesis
    proof (cases rule: clean_pages_Inr_cases)
      case cancelled
      then show ?thesis by simp
    next
      case cancelled_paused
      from wait_while_paused_polls_only [OF cancelled_paused(2)]
      have "polls_only s s'" by (auto intro: polls_only_trans [OF poll_cancel_polls_only])
      from polls_only_clean_fields [OF this] show ?thesis by simp
    next
      case (continue s1)
      from wait_while_paused_polls_only [OF continue(2)]
      have "polls_only s s1" by (auto intro: polls_only_trans [OF poll_cancel_polls_only])
      from polls_only_clean_fields [OF this] Cons.IH [OF continue(3)]
      show ?thesis by simp
    qed
  qed
qed

text \<open>The page loop falls through only when every page was fetched and handled.\<close>

lemma clean_pages_Done:
  "clean_pages c p v fl pages s = Some (Done, s') \<Longrightarrow>
   pages = map Inr (pages_of pages) \<and>
   futures s' = futures s @ map (\<lambda>b. (b, False)) (page_batches fl (pages_of pages))"
proof (induction pages arbitrary: s)
  case Nil
  then show ?case by simp
next
  case (Cons pg pages)
  show ?case
  proof (cases pg)
    case (Inl e)
    with Cons.prems show ?thesis by simp
  next
    case (Inr page)
    from Cons.prems [unfolded Inr] show ?thesis
    proof (cases rule: clean_pages_Inr_cases)
      case (continue s1)
      from wait_while_paused_polls_only [OF continue(2)]
      have "polls_only s s1" by (auto intro: polls_only_trans [OF poll_cancel_polls_only])
      from polls_only_fields(1) [OF this] Cons.IH [OF continue(3)] Inr
      show ?thesis by simp
    qed simp_all
  qed
qed

lemma clean_pages_completes:
  assumes "never_cancelled c" and "pause_always_ends c"
  shows "\<exists>s'. clean_pages c p v fl (map Inr ps) s = Some (Done, s')"
proof (induction ps arbitrary: s)
  case Nil
  show ?case by simp
next
  case (Cons page ps)
  from wait_while_paused_continues [OF assms, of "snd (poll_cancel c s)"]
  obtain s1 where "wait_while_paused c (snd (poll_cancel c s)) = Some (False, s1)" by blast
  with assms(1) Cons [of "after_page c v fl page s1"] show ?case
    by (simp add: clean_pages_Inr del: clean_pages.simps)
qed

lemma pages_of_map_Inr [simp]: "pages_of (map Inr ps) = ps"
  by (induction ps) simp_all

subsection \<open>Collecting the results\<close>

lemma drain_batches_Done:
  "drain_batches c cl b v bs s = (Done, s') \<Longrightarrow>
   completed_batches s' = completed_batches s + length bs \<and>
   deleted_count s' = deleted_count s + sum_list (map (\<lambda>batch. fst (snd (delete_batch cl b batch))) bs)"
proof (induction bs arbitrary: s)
  case Nil
  then show ?case by simp
next
  case (Cons batch bs)
  from Cons.prems have nc: "\<not> fst (poll_cancel c s)" by (auto split: if_splits)
  with Cons.prems Cons.IH show ?case
    by (auto simp: Let_def)
qed

lemma drain_batches_completes:
  "never_cancelled c \<Longrightarrow> fst (drain_batches c cl b v bs s) = Done"
  by (induction bs arbitrary: s) (simp_all add: Let_def)

lemma length_as_completed [simp]: "length (as_completed p fs) = length fs"
  by (simp add: as_completed_def)

lemma mset_as_completed [simp]: "mset (as_completed p fs) = mset fs"
proof -
  have "mset (as_completed p fs) = image_mset (\<lambda>i. fs ! i) (mset (sort_key (finish_time p) [0..<length fs]))"
    by (simp add: as_completed_def)
  also have "\<dots> = mset (map (\<lambda>i. fs ! i) [0..<length fs])" by simp
  also have "\<dots> = mset fs" by (simp only: map_nth)
  finally show ?thesis .
qed

lemma sum_list_as_completed:
  fixes g :: "'f \<Rightarrow> nat"
  shows "sum_list (map g (as_completed p fs)) = sum_list (map g fs)"
proof -
  have "sum_list (map g (as_completed p fs)) = sum_mset (image_mset g (mset (as_completed p fs)))"
    by (simp only: sum_mset_sum_list [symmetric] mset_map)
  also have "\<dots> = sum_mset (image_mset g (mset fs))" by simp
  also have "\<dots> = sum_list (map g fs)" by (simp only: sum_mset_sum_list [symmetric] mset_map)
  finally show ?thesis .
qed

lemma deletes_all_count:
  "deletes_all cl b \<Longrightarrow> fst (snd (delete_batch cl b batch)) = length batch"
proof -
  assume "deletes_all cl b"
  then obtain ds where "delete_objects cl b batch = Inr \<lparr>Deleted = Some ds, Errors = None\<rparr>"
    and "map Key ds = map Key batch"
    unfolding deletes_all_def by blast
  then show ?thesis
    by (simp add: delete_batch_def Let_def) (metis length_map)
qed

lemma bucket_exists_head: "head_bucket cl b = None \<Longrightarrow> bucket_exists cl b = Inr True"
  by (simp add: bucket_exists_def)

lemma executed_all:
  "futures s = map (\<lambda>t. (t, False)) ts \<Longrightarrow> executed s = ts \<and> submitted s = ts"
  by (simp add: executed_def submitted_def o_def)

lemma clean_with_pool_succeeds:
  assumes w: "0 < max_workers c" and nc: "never_cancelled c" and pe: "pause_always_ends c"
    and init: "futures s0 = []" "batches_created s0 = 0" "completed_batches s0 = 0"
      "deleted_count s0 = 0"
  shows "\<exists>s'. clean_with_pool cl c p b v fl (map Inr ps) s0 = Some (Return True, s')
          \<and> futures s' = map (\<lambda>t. (t, False)) (page_batches fl ps)
          \<and> batches_created s' = length (page_batches fl ps)
          \<and> completed_batches s' = length (page_batches fl ps)
          \<and> deleted_count s' =
              sum_list (map (\<lambda>batch. fst (snd (delete_batch cl b batch))) (page_batches fl ps))"
proof -
  let ?s1 = "notify c (MsgDeleting v (max_workers c)) s0"
  from clean_pages_completes [OF nc pe] obtain s2 where
    cp: "clean_pages c p v fl (map Inr ps) ?s1 = Some (Done, s2)" by blast
  from clean_pages_Done [OF cp] init
  have f2: "futures s2 = map (\<lambda>t. (t, False)) (page_batches fl ps)" by simp
  from clean_pages_created [OF cp] init f2
  have b2: "batches_created s2 = length (page_batches fl ps)" by simp
  from clean_pages_frame [OF cp] init
  have c2: "completed_batches s2 = 0" "deleted_count s2 = 0" by simp_all
  let ?s3 = "notify c (MsgTotal (pages_processed s2) (batches_created s2)) s2"
  let ?bs = "as_completed p (submitted s2)"
  obtain ex4 s4 where d: "drain_batches c cl b v ?bs ?s3 = (ex4, s4)"
    by (cases "drain_batches c cl b v ?bs ?s3")
  with drain_batches_completes [OF nc, of cl b v ?bs ?s3] have ex4: "ex4 = Done" by simp
  from executed_all [OF f2] have sub: "submitted s2 = page_batches fl ps" by simp
  from drain_batches_Done [OF d [unfolded ex4]] c2 sub
  have c4: "completed_batches s4 = length (page_batches fl ps)"
    and d4: "deleted_count s4 =
      sum_list (map (\<lambda>batch. fst (snd (delete_batch cl b batch))) (page_batches fl ps))"
    by (simp_all add: sum_list_as_completed)
  have "futures s4 = futures s2" "batches_created s4 = batches_created s2"
    using drain_batches_frame(1,2) [of c cl b v ?bs ?s3] d by simp_all
  with f2 b2 have f4: "futures s4 = map (\<lambda>t. (t, False)) (page_batches fl ps)"
    and b4: "batches_created s4 = length (page_batches fl ps)" by simp_all
  let ?s5 = "notify c (MsgCleanupCompleted v (deleted_count s4)) s4"
  from w cp d ex4 have "clean_with_pool cl c p b v fl (map Inr ps) s0 = Some (Return True, ?s5)"
    by (simp add: clean_with_pool_def Let_def)
  with f4 b4 c4 d4 show ?thesis by simp
qed

lemma clean_bucket_started:
  assumes "bucket_exists cl b = Inr True" and "is_versioned cl b = Inr v"
  shows "clean_bucket cl c p b =
           map_option (clean_result c)
             (if v then clean_versioned_bucket cl c p b
                         (notify c (MsgVersioning True) (notify c (MsgVerifying b) init_clean))
              else clean_non_versioned_bucket cl c p b
                         (notify c (MsgVersioning False) (notify c (MsgVerifying b) init_clean)))"
  using assms
  by (auto simp: clean_bucket_def Let_def clean_result_def split: option.splits exit.splits)

lemma init_clean_fields [simp]:
  "futures init_clean = []" "batches_created init_clean = 0"
  "completed_batches init_clean = 0" "deleted_count init_clean = 0"
  "cancel_polls init_clean = 0" "messages init_clean = []"
  by (simp_all add: init_clean_def)

lemma sum_length_page_batches:
  "sum_list (map length (page_batches fl ps)) = length (concat (map fl ps))"
proof -
  have "sum_list (map length (page_batches fl ps)) = length (concat (page_batches fl ps))"
    by (simp add: length_concat)
  then show ?thesis by (simp add: concat_page_batches)
qed

lemma length_le_sum_lengths:
  "\<forall>b \<in> set xs. b \<noteq> [] \<Longrightarrow> length xs \<le> sum_list (map length xs)"
proof (induction xs)
  case Nil
  show ?case by simp
next
  case (Cons x xs)
  then have "1 \<le> length x" by (cases x) simp_all
  with Cons show ?case by simp
qed

lemma length_page_batches_le: "length (page_batches fl ps) \<le> length (concat (map fl ps))"
proof -
  have "\<forall>b \<in> set (page_batches fl ps). b \<noteq> []"
    by (auto simp: page_batches_def dest: split_batches_nonempty)
  then have "length (page_batches fl ps) \<le> sum_list (map length (page_batches fl ps))"
    by (rule length_le_sum_lengths)
  then show ?thesis by (simp add: sum_length_page_batches)
qed

lemma paused_run:
  "clean_bucket example_client pausing_control example_pool ''logs'' = Some (True, paused_final)"
  by code_simp

lemma archive_run:
  "clean_bucket example_client example_control example_pool ''archive'' = Some (True, archive_final)"
  by code_simp

lemma keys_objects_in_page:
  "map Key (concat (map objects_in_page pages)) = listed_keys pages"
  by (induction pages) (simp_all add: listed_keys_def objects_in_page_def o_def split: option.splits)

lemma objects_to_delete_entries:
  "objects_to_delete page =
     map (\<lambda>(k, v). version_item k v) (version_entries page @ marker_entries page)"
  by (simp add: objects_to_delete_def version_entries_def marker_entries_def version_item_def
      split: option.splits)

lemma count_contents_pages:
  "\<exists>cs'. count_contents (map Inr pages) cs = Inr cs'
         \<and> objects cs' = objects cs + length (listed_keys pages)
         \<and> versions cs' = versions cs \<and> delete_markers cs' = delete_markers cs"
proof (induction pages arbitrary: cs)
  case Nil
  show ?case by (simp add: listed_keys_def)
next
  case (Cons page pages)
  show ?case
  proof (cases "Contents page")
    case None
    with Cons [of cs] show ?thesis by (simp add: listed_keys_def)
  next
    case (Some ks)
    with Cons [of "cs\<lparr>objects := objects cs + length ks\<rparr>"] show ?thesis
      by (auto simp: listed_keys_def)
  qed
qed

lemma count_versions_pages:
  "\<exists>cs'. count_versions (map Inr vpages) cs = Inr cs'
         \<and> versions cs' = versions cs + length (concat (map version_entries vpages))
         \<and> delete_markers cs' = delete_markers cs + length (concat (map marker_entries vpages))"
proof (induction vpages arbitrary: cs)
  case Nil
  show ?case by simp
next
  case (Cons page vpages)
  let ?cs1 = "case Versions page of None \<Rightarrow> cs
              | Some vs \<Rightarrow> cs\<lparr>versions := versions cs + length vs\<rparr>"
  let ?cs2 = "case DeleteMarkers page of None \<Rightarrow> ?cs1
              | Some ms \<Rightarrow> ?cs1\<lparr>delete_markers := delete_markers ?cs1 + length ms\<rparr>"
  have v: "versions ?cs2 = versions cs + length (version_entries page)"
    by (simp add: version_entries_def split: option.splits)
  have m: "delete_markers ?cs2 = delete_markers cs + length (marker_entries page)"
    by (simp add: marker_entries_def split: option.splits)
  from Cons [of ?cs2] obtain cs' where "count_versions (map Inr vpages) ?cs2 = Inr cs'"
    and "versions cs' = versions ?cs2 + length (concat (map version_entries vpages))"
    and "delete_markers cs' = delete_markers ?cs2 + length (concat (map marker_entries vpages))"
    by blast
  with v m show ?case by (simp add: Let_def)
qed

lemma clean_pages_not_True:
  "clean_pages c p v fl pages s = Some (ex, s') \<Longrightarrow> ex \<noteq> Return True"
proof (induction pages arbitrary: s)
  case Nil
  then show ?case by auto
next
  case (Cons pg pages)
  show ?case
  proof (cases pg)
    case (Inl e)
    with Cons.prems show ?thesis by auto
  next
    case (Inr page)
    from Cons.prems [unfolded Inr] show ?thesis
    proof (cases rule: clean_pages_Inr_cases)
      case (continue s1)
      from Cons.IH [OF continue(3)] show ?thesis .
    qed simp_all
  qed
qed

text \<open>A run that returns \<^verbatim>\<open>True\<close> went through the whole completion loop.\<close>

lemma clean_with_pool_True:
  assumes "clean_with_pool cl c p b v fl pages s0 = Some (ex, s')"
    and "fst (clean_result c (ex, s'))"
    and init: "batches_created s0 = length (futures s0)" "completed_batches s0 = 0"
      "futures s0 = []"
  shows "completed_batches s' = batches_created s' \<and> batches_created s' = length (futures s')"
  using assms(1)
proof (cases rule: clean_with_pool_cases)
  case no_pool
  with assms(2) show ?thesis by (simp add: clean_failed_def)
next
  case (stopped ex2 s2)
  from clean_pages_not_True [OF stopped(2)] stopped(3,4)
  have "fst (clean_result c (ex, s')) = False"
    by (cases ex2) (auto simp: catch_client_error_eq clean_failed_def split: exn.splits)
  with assms(2) show ?thesis by simp
next
  case (drained s2)
  with assms(2) show ?thesis by simp
next
  case (completed s2 s4)
  let ?s1 = "notify c (MsgDeleting v (max_workers c)) s0"
  let ?s3 = "notify c (MsgTotal (pages_processed s2) (batches_created s2)) s2"
  let ?bs = "as_completed p (submitted s2)"
  from clean_pages_created [OF completed(2)] init
  have b2: "batches_created s2 = length (futures s2)" by simp
  from clean_pages_frame [OF completed(2)] init have c2: "completed_batches s2 = 0" by simp
  from drain_batches_Done [OF completed(3)] c2
  have c4: "completed_batches s4 = length (futures s2)" by (simp add: submitted_def)
  have "futures s4 = futures s2" "batches_created s4 = batches_created s2"
    using drain_batches_frame(1,2) [of c cl b v ?bs ?s3] completed(3) by simp_all
  with b2 c4 completed(5) show ?thesis by simp
qed

subsection \<open>The loops of the copy\<close>

lemma submit_copies_futures [simp]:
  "futures (submit_copies sp dp ks s) =
     futures s @ map (\<lambda>k. ((k, dest_key sp dp k), False)) ks"
  by (induction ks arbitrary: s) simp_all

lemma submit_copies_frame [simp]:
  "total_objects_submitted (submit_copies sp dp ks s) = total_objects_submitted s + length ks"
  "pages_processed (submit_copies sp dp ks s) = pages_processed s"
  "completed_count (submit_copies sp dp ks s) = completed_count s"
  "copied_count (submit_copies sp dp ks s) = copied_count s"
  "cancel_polls (submit_copies sp dp ks s) = cancel_polls s"
  "pause_polls (submit_copies sp dp ks s) = pause_polls s"
  "messages (submit_copies sp dp ks s) = messages s"
  by (induction ks arbitrary: s) simp_all

lemma after_copy_page_futures [simp]:
  "futures (after_copy_page c sp dp page s) =
     futures s @ map (\<lambda>t. (t, False)) (copy_tasks sp dp [page])"
  by (simp add: after_copy_page_def copy_tasks_def listed_keys_def Let_def o_def
      split: option.splits)

lemma submitted_after_copy_page [simp]:
  "submitted (after_copy_page c sp dp page s) = submitted s @ copy_tasks sp dp [page]"
  by (simp add: submitted_def o_def)

lemma after_copy_page_frame [simp]:
  "cancel_polls (after_copy_page c sp dp page s) = cancel_polls s"
  "pause_polls (after_copy_page c sp dp page s) = pause_polls s"
  "completed_count (after_copy_page c sp dp page s) = completed_count s"
  "copied_count (after_copy_page c sp dp page s) = copied_count s"
  by (simp_all add: after_copy_page_def Let_def split: option.splits)

lemma copy_tasks_Cons:
  "copy_tasks sp dp (page # pages) = copy_tasks sp dp [page] @ copy_tasks sp dp pages"
  by (simp add: copy_tasks_def listed_keys_def)

lemma copy_tasks_Nil [simp]: "copy_tasks sp dp [] = []"
  by (simp add: copy_tasks_def listed_keys_def)

lemma copy_pages_Inr:
  "copy_pages c p sp dp (Inr page # pages) s =
     (if fst (poll_cancel c s)
      then Some (Return False, cancel_futures p (notify c MsgCancelled (snd (poll_cancel c s))))
      else
        (case wait_while_paused c (snd (poll_cancel c s)) of
           None \<Rightarrow> None
         | Some (True, s1) \<Rightarrow> Some (Return False, s1)
         | Some (False, s1) \<Rightarrow> copy_pages c p sp dp pages (after_copy_page c sp dp page s1)))"
  by (simp add: after_copy_page_def Let_def split: option.splits bool.splits)

lemma copy_pages_Inr_cases:
  assumes "copy_pages c p sp dp (Inr page # pages) s = Some (ex, s')"
  obtains
    (cancelled) "fst (poll_cancel c s)" and "ex = Return False"
      and "s' = cancel_futures p (notify c MsgCancelled (snd (poll_cancel c s)))"
  | (cancelled_paused) "\<not> fst (poll_cancel c s)"
      and "wait_while_paused c (snd (poll_cancel c s)) = Some (True, s')" and "ex = Return False"
  | (continue) s1 where "\<not> fst (poll_cancel c s)"
      and "wait_while_paused c (snd (poll_cancel c s)) = Some (False, s1)"
      and "copy_pages c p sp dp pages (after_copy_page c sp dp page s1) = Some (ex, s')"
proof -
  note a = assms [unfolded copy_pages_Inr]
  show ?thesis
  proof (cases "fst (poll_cancel c s)")
    case True
    with a show ?thesis by (intro cancelled) simp_all
  next
    case False
    with a obtain r s1 where w: "wait_while_paused c (snd (poll_cancel c s)) = Some (r, s1)"
      by (cases "wait_while_paused c (snd (poll_cancel c s))") auto
    show ?thesis
    proof (cases r)
      case True
      with a False w show ?thesis by (intro cancelled_paused) simp_all
    next
      case r: False
      with a False w show ?thesis by (intro continue [of s1]) simp_all
    qed
  qed
qed

text \<open>What the page loop of the copy has submitted, whatever its exit.\<close>

lemma copy_pages_submitted:
  "copy_pages c p sp dp pages s = Some (ex, s') \<Longrightarrow>
   \<exists>n. submitted s' = submitted s @ copy_tasks sp dp (take n (pages_of pages))"
proof (induction pages arbitrary: s)
  case Nil
  then show ?case by simp
next
  case (Cons pg pages)
  show ?case
  proof (cases pg)
    case (Inl e)
    with Cons.prems show ?thesis by simp
  next
    case (Inr page)
    from Cons.prems [unfolded Inr] show ?thesis
    proof (cases rule: copy_pages_Inr_cases)
      case cancelled
      then have "submitted s' = submitted s" by (simp add: polls_only_submitted)
      then show ?thesis by (intro exI [of _ 0]) simp
    next
      case cancelled_paused
      from wait_while_paused_polls_only [OF cancelled_paused(2)]
      have "submitted s' = submitted s"
        by (simp add: polls_only_submitted)
      then show ?thesis by (intro exI [of _ 0]) simp
    next
      case (continue s1)
      from wait_while_paused_polls_only [OF continue(2)]
      have s1: "submitted s1 = submitted s" by (simp add: polls_only_submitted)
      from Cons.IH [OF continue(3)] obtain n where
        "submitted s' = submitted (after_copy_page c sp dp page s1)
                          @ copy_tasks sp dp (take n (pages_of pages))"
        by blast
      moreover have "copy_tasks sp dp (page # take n (pages_of pages)) =
          copy_tasks sp dp [page] @ copy_tasks sp dp (take n (pages_of pages))"
        by (rule copy_tasks_Cons)
      ultimately have "submitted s' =
          submitted s @ copy_tasks sp dp (take (Suc n) (pages_of (pg # pages)))"
        using s1 Inr by simp
      then show ?thesis by blast
    qed
  qed
qed

lemma copy_pages_Done:
  "copy_pages c p sp dp pages s = Some (Done, s') \<Longrightarrow>
   pages = map Inr (pages_of pages) \<and>
   futures s' = futures s @ map (\<lambda>t. (t, False)) (copy_tasks sp dp (pages_of pages))"
proof (induction pages arbitrary: s)
  case Nil
  then show ?case by simp
next
  case (Cons pg pages)
  show ?case
  proof (cases pg)
    case (Inl e)
    with Cons.prems show ?thesis by simp
  next
    case (Inr page)
    from Cons.prems [unfolded Inr] show ?thesis
    proof (cases rule: copy_pages_Inr_cases)
      case (continue s1)
      from wait_while_paused_polls_only [OF continue(2)]
      have "polls_only s s1" by (auto intro: polls_only_trans [OF poll_cancel_polls_only])
      moreover have "copy_tasks sp dp (page # pages_of pages) =
          copy_tasks sp dp [page] @ copy_tasks sp dp (pages_of pages)"
        by (rule copy_tasks_Cons)
      ultimately show ?thesis
        using polls_only_fields(1) [of s s1] Cons.IH [OF continue(3)] Inr by simp
    qed simp_all
  qed
qed

lemma copy_pages_completes:
  assumes "never_cancelled c" and "pause_always_ends c"
  shows "\<exists>s'. copy_pages c p sp dp (map Inr ps) s = Some (Done, s')"
proof (induction ps arbitrary: s)
  case Nil
  show ?case by simp
next
  case (Cons page ps)
  from wait_while_paused_continues [OF assms, of "snd (poll_cancel c s)"]
  obtain s1 where "wait_while_paused c (snd (poll_cancel c s)) = Some (False, s1)" by blast
  with assms(1) Cons [of "after_copy_page c sp dp page s1"] show ?case
    by (simp add: copy_pages_Inr del: copy_pages.simps)
qed

lemma copy_pages_not_True:
  "copy_pages c p sp dp pages s = Some (ex, s') \<Longrightarrow> ex \<noteq> Return True"
proof (induction pages arbitrary: s)
  case Nil
  then show ?case by auto
next
  case (Cons pg pages)
  show ?case
  proof (cases pg)
    case (Inl e)
    with Cons.prems show ?thesis by auto
  next
    case (Inr page)
    from Cons.prems [unfolded Inr] show ?thesis
    proof (cases rule: copy_pages_Inr_cases)
      case (continue s1)
      from Cons.IH [OF continue(3)] show ?thesis .
    qed simp_all
  qed
qed

lemma after_copy_frame [simp]:
  "futures (after_copy c cl sb db task s) = futures s"
  "cancel_polls (after_copy c cl sb db task s) = cancel_polls s"
  "pause_polls (after_copy c cl sb db task s) = pause_polls s"
  "completed_count (after_copy c cl sb db task s) = Suc (completed_count s)"
  "total_objects_submitted (after_copy c cl sb db task s) = total_objects_submitted s"
  by (simp_all add: after_copy_def Let_def)

lemma drain_copies_Cons:
  "drain_copies c cl sb db (task # rest) s =
     (if fst (poll_cancel c s)
      then Some (Return False, notify c MsgCancelled (snd (poll_cancel c s)))
      else
        (case wait_while_paused c (snd (poll_cancel c s)) of
           None \<Rightarrow> None
         | Some (True, s1) \<Rightarrow> Some (Return False, s1)
         | Some (False, s1) \<Rightarrow> drain_copies c cl sb db rest (after_copy c cl sb db task s1)))"
  by (simp add: after_copy_def Let_def split: option.splits bool.splits)

lemma drain_copies_Cons_cases:
  assumes "drain_copies c cl sb db (task # rest) s = Some (ex, s')"
  obtains
    (cancelled) "fst (poll_cancel c s)" and "ex = Return False"
      and "s' = notify c MsgCancelled (snd (poll_cancel c s))"
  | (cancelled_paused) "\<not> fst (poll_cancel c s)"
      and "wait_while_paused c (snd (poll_cancel c s)) = Some (True, s')" and "ex = Return False"
  | (continue) s1 where "\<not> fst (poll_cancel c s)"
      and "wait_while_paused c (snd (poll_cancel c s)) = Some (False, s1)"
      and "drain_copies c cl sb db rest (after_copy c cl sb db task s1) = Some (ex, s')"
proof -
  note a = assms [unfolded drain_copies_Cons]
  show ?thesis
  proof (cases "fst (poll_cancel c s)")
    case True
    with a show ?thesis by (intro cancelled) simp_all
  next
    case False
    with a obtain r s1 where w: "wait_while_paused c (snd (poll_cancel c s)) = Some (r, s1)"
      by (cases "wait_while_paused c (snd (poll_cancel c s))") auto
    show ?thesis
    proof (cases r)
      case True
      with a False w show ?thesis by (intro cancelled_paused) simp_all
    next
      case r: False
      with a False w show ?thesis by (intro continue [of s1]) simp_all
    qed
  qed
qed

lemma drain_copies_frame:
  "drain_copies c cl sb db ts s = Some (ex, s') \<Longrightarrow>
   futures s' = futures s \<and> (ex = Done \<or> ex = Return False)"
proof (induction ts arbitrary: s)
  case Nil
  then show ?case by simp
next
  case (Cons task ts)
  from Cons.prems show ?case
  proof (cases rule: drain_copies_Cons_cases)
    case cancelled
    then show ?thesis by simp
  next
    case cancelled_paused
    from wait_while_paused_polls_only [OF cancelled_paused(2)]
    have "polls_only s s'" by (auto intro: polls_only_trans [OF poll_cancel_polls_only])
    from polls_only_fields(1) [OF this] cancelled_paused(3) show ?thesis by simp
  next
    case (continue s1)
    from wait_while_paused_polls_only [OF continue(2)]
    have "polls_only s s1" by (auto intro: polls_only_trans [OF poll_cancel_polls_only])
    from polls_only_fields(1) [OF this] Cons.IH [OF continue(3)] show ?thesis by simp
  qed
qed

lemma drain_copies_completes:
  assumes "never_cancelled c" and "pause_always_ends c"
  shows "\<exists>s'. drain_copies c cl sb db ts s = Some (Done, s')
               \<and> completed_count s' = completed_count s + length ts"
proof (induction ts arbitrary: s)
  case Nil
  show ?case by simp
next
  case (Cons task ts)
  from wait_while_paused_continues [OF assms, of "snd (poll_cancel c s)"]
  obtain s1 where w: "wait_while_paused c (snd (poll_cancel c s)) = Some (False, s1)"
    and po: "polls_only (snd (poll_cancel c s)) s1" by blast
  from polls_only_copy_fields(2) [OF po] have "completed_count s1 = completed_count s" by simp
  with assms(1) w Cons [of "after_copy c cl sb db task s1"] show ?case
    by (simp add: drain_copies_Cons del: drain_copies.simps)
qed

lemma copy_result_simps [simp]:
  "copy_result c (Return r, s) = (r, s)"
  "copy_result c (Raise e, s) = copy_failed c e s"
  "copy_result c (Done, s) = (True, s)"
  by (simp_all add: copy_result_def)

lemma init_copy_fields [simp]:
  "futures init_copy = []" "total_objects_submitted init_copy = 0"
  "completed_count init_copy = 0" "copied_count init_copy = 0"
  "cancel_polls init_copy = 0" "messages init_copy = []"
  by (simp_all add: init_copy_def)

lemma copy_failed_frame [simp]:
  "\<not> fst (copy_failed c e s)" "futures (snd (copy_failed c e s)) = futures s"
  "cancel_polls (snd (copy_failed c e s)) = cancel_polls s"
  by (simp_all add: copy_failed_def)

lemma clean_failed_frame [simp]:
  "\<not> fst (clean_failed c e s)" "futures (snd (clean_failed c e s)) = futures s"
  "cancel_polls (snd (clean_failed c e s)) = cancel_polls s"
  by (simp_all add: clean_failed_def)

text \<open>The ways in which \<^verbatim>\<open>copy_objects\<close> ends.\<close>

lemma copy_objects_cases:
  assumes "copy_objects cl c p sb sp0 db dp0 = Some (r, s)"
  obtains
    (not_verified) "bucket_exists cl sb \<noteq> Inr True \<or> bucket_exists cl db \<noteq> Inr True"
      and "\<not> r" and "futures s = []" and "cancel_polls s = 0"
  | (no_pool) "bucket_exists cl sb = Inr True" and "bucket_exists cl db = Inr True"
      and "max_workers c \<le> 0" and "\<not> r" and "futures s = []" and "cancel_polls s = 0"
  | (stopped) ex s2 where "bucket_exists cl sb = Inr True" and "bucket_exists cl db = Inr True"
      and "0 < max_workers c"
      and "copy_pages c p (normalize_prefix sp0) (normalize_prefix dp0)
             (list_objects_v2 cl sb (normalize_prefix sp0))
             (notify c (MsgCopying (max_workers c)) (notify c MsgVerifyingBuckets init_copy))
           = Some (ex, s2)"
      and "ex \<noteq> Done" and "(r, s) = copy_result c (ex, s2)"
  | (drained) s2 ex s4 where "bucket_exists cl sb = Inr True" and "bucket_exists cl db = Inr True"
      and "0 < max_workers c"
      and "copy_pages c p (normalize_prefix sp0) (normalize_prefix dp0)
             (list_objects_v2 cl sb (normalize_prefix sp0))
             (notify c (MsgCopying (max_workers c)) (notify c MsgVerifyingBuckets init_copy))
           = Some (Done, s2)"
      and "drain_copies c cl sb db (as_completed p (submitted s2))
             (notify c (MsgCopyTotal (pages_processed s2) (total_objects_submitted s2)) s2)
           = Some (ex, s4)"
      and "(r, s) = (if ex = Done then (True, notify c (MsgCopyCompleted (copied_count s4)) s4)
                     else copy_result c (ex, s4))"
proof (cases "bucket_exists cl sb = Inr True \<and> bucket_exists cl db = Inr True")
  case False
  with assms show ?thesis
    by (intro not_verified)
       (auto simp: copy_objects_def Let_def copy_failed_def split: sum.splits bool.splits)
next
  case be: True
  show ?thesis
  proof (cases "max_workers c \<le> 0")
    case True
    with be assms show ?thesis
      by (intro no_pool) (auto simp: copy_objects_def Let_def copy_failed_def)
  next
    case w: False
    let ?sp = "normalize_prefix sp0" and ?dp = "normalize_prefix dp0"
    let ?s1 = "notify c (MsgCopying (max_workers c)) (notify c MsgVerifyingBuckets init_copy)"
    from be w assms obtain ex s2 where
      cp: "copy_pages c p ?sp ?dp (list_objects_v2 cl sb ?sp) ?s1 = Some (ex, s2)"
      by (cases "copy_pages c p ?sp ?dp (list_objects_v2 cl sb ?sp) ?s1")
         (auto simp: copy_objects_def Let_def)
    show ?thesis
    proof (cases "ex = Done")
      case False
      with be w assms cp have "(r, s) = copy_result c (ex, s2)"
        by (cases ex) (auto simp: copy_objects_def Let_def)
      with be w cp False show ?thesis by (intro stopped [of ex s2]) simp_all
    next
      case True
      let ?s3 = "notify c (MsgCopyTotal (pages_processed s2) (total_objects_submitted s2)) s2"
      from be w assms cp True obtain ex4 s4 where
        d: "drain_copies c cl sb db (as_completed p (submitted s2)) ?s3 = Some (ex4, s4)"
        by (cases "drain_copies c cl sb db (as_completed p (submitted s2)) ?s3")
           (auto simp: copy_objects_def Let_def)
      with be w assms cp True
      have "(r, s) = (if ex4 = Done then (True, notify c (MsgCopyCompleted (copied_count s4)) s4)
                     else copy_result c (ex4, s4))"
        by (cases ex4) (auto simp: copy_objects_def Let_def)
      with be w cp True d show ?thesis by (intro drained [of s2 ex4 s4]) simp_all
    qed
  qed
qed

lemma copy_objects_submitted:
  assumes "copy_objects cl c p sb sp0 db dp0 = Some (r, s)"
  shows "\<exists>n. submitted s =
           copy_tasks (normalize_prefix sp0) (normalize_prefix dp0)
             (take n (pages_of (list_objects_v2 cl sb (normalize_prefix sp0))))"
  using assms
proof (cases rule: copy_objects_cases)
  case not_verified
  then have "submitted s = copy_tasks (normalize_prefix sp0) (normalize_prefix dp0)
      (take 0 (pages_of (list_objects_v2 cl sb (normalize_prefix sp0))))"
    by (simp add: submitted_def)
  then show ?thesis by blast
next
  case no_pool
  then have "submitted s = copy_tasks (normalize_prefix sp0) (normalize_prefix dp0)
      (take 0 (pages_of (list_objects_v2 cl sb (normalize_prefix sp0))))"
    by (simp add: submitted_def)
  then show ?thesis by blast
next
  case (stopped ex s2)
  from stopped(6) have "s = snd (copy_result c (ex, s2))" by (metis snd_conv)
  then have "submitted s = submitted s2" by (cases ex) (simp_all add: submitted_def)
  with copy_pages_submitted [OF stopped(4)] show ?thesis by (simp add: submitted_def)
next
  case (drained s2 ex s4)
  from drain_copies_frame [OF drained(5)] have f4: "futures s4 = futures s2" by simp
  from drained(6) have "s = (if ex = Done then notify c (MsgCopyCompleted (copied_count s4)) s4
                     else snd (copy_result c (ex, s4)))"
    by (metis snd_conv)
  with f4 have "submitted s = submitted s2" by (cases ex) (simp_all add: submitted_def)
  with copy_pages_submitted [OF drained(4)] show ?thesis by (simp add: submitted_def)
qed

lemma copy_objects_succeeds:
  assumes "head_bucket cl sb = None" and "head_bucket cl db = None"
    and l: "list_objects_v2 cl sb (normalize_prefix sp0) = map Inr pages"
    and w: "0 < max_workers c" and nc: "never_cancelled c" and pe: "pause_always_ends c"
  shows "\<exists>s. copy_objects cl c p sb sp0 db dp0 = Some (True, s)
           \<and> futures s = map (\<lambda>t. (t, False))
                            (copy_tasks (normalize_prefix sp0) (normalize_prefix dp0) pages)
           \<and> completed_count s =
               length (copy_tasks (normalize_prefix sp0) (normalize_prefix dp0) pages)"
proof -
  let ?sp = "normalize_prefix sp0" and ?dp = "normalize_prefix dp0"
  let ?s1 = "notify c (MsgCopying (max_workers c)) (notify c MsgVerifyingBuckets init_copy)"
  from assms(1,2) have be: "bucket_exists cl sb = Inr True" "bucket_exists cl db = Inr True"
    by (simp_all add: bucket_exists_head)
  from copy_pages_completes [OF nc pe] obtain s2 where
    cp: "copy_pages c p ?sp ?dp (map Inr pages) ?s1 = Some (Done, s2)" by blast
  from copy_pages_Done [OF cp]
  have f2: "futures s2 = map (\<lambda>t. (t, False)) (copy_tasks ?sp ?dp pages)" by simp
  let ?s3 = "notify c (MsgCopyTotal (pages_processed s2) (total_objects_submitted s2)) s2"
  let ?ts = "as_completed p (submitted s2)"
  from drain_copies_completes [OF nc pe, of cl sb db ?ts ?s3] obtain s4 where
    d: "drain_copies c cl sb db ?ts ?s3 = Some (Done, s4)"
    and c4: "completed_count s4 = completed_count ?s3 + length ?ts" by blast
  from drain_copies_frame [OF d] f2
  have f4: "futures s4 = map (\<lambda>t. (t, False)) (copy_tasks ?sp ?dp pages)" by simp
  have "completed_count s2 = 0"
    using cp
  proof -
    have "copy_pages c p ?sp ?dp pgs s = Some (ex, s') \<Longrightarrow> completed_count s' = completed_count s"
      for pgs s ex s'
    proof (induction pgs arbitrary: s)
      case Nil
      then show ?case by simp
    next
      case (Cons pg pgs)
      show ?case
      proof (cases pg)
        case (Inl e)
        with Cons.prems show ?thesis by simp
      next
        case (Inr page)
        from Cons.prems [unfolded Inr] show ?thesis
        proof (cases rule: copy_pages_Inr_cases)
          case cancelled
          then show ?thesis by (simp add: cancel_futures_def)
        next
          case cancelled_paused
          from wait_while_paused_polls_only [OF cancelled_paused(2)]
          have "polls_only s s'" by (auto intro: polls_only_trans [OF poll_cancel_polls_only])
          from polls_only_copy_fields(2) [OF this] show ?thesis .
        next
          case (continue s1)
          from wait_while_paused_polls_only [OF continue(2)]
          have "polls_only s s1" by (auto intro: polls_only_trans [OF poll_cancel_polls_only])
          from polls_only_copy_fields(2) [OF this] Cons.IH [OF continue(3)]
          show ?thesis by simp
        qed
      qed
    qed
    from this [OF cp] show ?thesis by simp
  qed
  with c4 f2 have c4': "completed_count s4 = length (copy_tasks ?sp ?dp pages)"
    by (simp add: submitted_def)
  let ?s5 = "notify c (MsgCopyCompleted (copied_count s4)) s4"
  from be w l cp d have "copy_objects cl c p sb sp0 db dp0 = Some (True, ?s5)"
    by (simp add: copy_objects_def Let_def)
  with f4 c4' show ?thesis by simp
qed

lemma clean_bucket_succeeds:
  assumes "head_bucket cl b = None" and v: "is_versioned cl b = Inr v"
    and "list_objects_v2 cl b [] = map Inr pages"
    and "list_object_versions cl b [] = map Inr vpages"
    and w: "0 < max_workers c" and nc: "never_cancelled c" and pe: "pause_always_ends c"
  shows "\<exists>s. clean_bucket cl c p b = Some (True, s) \<and> executed s = submitted s
           \<and> submitted s = (if v then page_batches objects_to_delete vpages
                             else page_batches objects_in_page pages)"
proof (cases v)
  case True
  let ?s0 = "notify c (MsgVersioning True) (notify c (MsgVerifying b) init_clean)"
  from clean_with_pool_succeeds [OF w nc pe, of ?s0 cl p b True objects_to_delete vpages]
  obtain s where run: "clean_with_pool cl c p b True objects_to_delete (map Inr vpages) ?s0
      = Some (Return True, s)"
    and f: "futures s = map (\<lambda>t. (t, False)) (page_batches objects_to_delete vpages)"
    by auto
  from run assms(4) True have "clean_bucket cl c p b = Some (True, s)"
    by (simp add: clean_bucket_started [OF bucket_exists_head [OF assms(1)] v]
        clean_versioned_bucket_def)
  with executed_all [OF f] True show ?thesis by simp
next
  case False
  let ?s0 = "notify c (MsgVersioning False) (notify c (MsgVerifying b) init_clean)"
  from clean_with_pool_succeeds [OF w nc pe, of ?s0 cl p b False objects_in_page pages]
  obtain s where run: "clean_with_pool cl c p b False objects_in_page (map Inr pages) ?s0
      = Some (Return True, s)"
    and f: "futures s = map (\<lambda>t. (t, False)) (page_batches objects_in_page pages)"
    by auto
  from run assms(3) False have "clean_bucket cl c p b = Some (True, s)"
    by (simp add: clean_bucket_started [OF bucket_exists_head [OF assms(1)] v]
        clean_non_versioned_bucket_def)
  with executed_all [OF f] False show ?thesis by simp
qed

text \<open>A run of \<^verbatim>\<open>clean_bucket\<close> that returns \<^verbatim>\<open>True\<close> has collected every batch.\<close>

lemma clean_bucket_True_counts:
  assumes "clean_bucket cl c p b = Some (True, s)"
  shows "completed_batches s = batches_created s \<and> batches_created s = length (submitted s)"
proof -
  have "completed_batches s = batches_created s \<and> batches_created s = length (futures s)"
    using assms
  proof (cases rule: clean_bucket_cases)
    case (plain ex s')
    from plain(4) have r: "fst (clean_result c (ex, s'))" and s: "s = snd (clean_result c (ex, s'))"
      by (metis fst_conv, metis snd_conv)
    from clean_with_pool_True [OF plain(3) r] have
      "completed_batches s' = batches_created s' \<and> batches_created s' = length (futures s')"
      by simp
    moreover from r s have "s = s'" by (cases ex) (simp_all add: clean_failed_def)
    ultimately show ?thesis by simp
  next
    case (versioned ex s')
    from versioned(4) have r: "fst (clean_result c (ex, s'))"
      and s: "s = snd (clean_result c (ex, s'))"
      by (metis fst_conv, metis snd_conv)
    from clean_with_pool_True [OF versioned(3) r] have
      "completed_batches s' = batches_created s' \<and> batches_created s' = length (futures s')"
      by simp
    moreover from r s have "s = s'" by (cases ex) (simp_all add: clean_failed_def)
    ultimately show ?thesis by simp
  qed simp_all
  then show ?thesis by (simp add: submitted_def)
qed

lemma flaky_clean_run:
  "clean_bucket flaky_client example_control example_pool ''logs'' = Some (True, flaky_clean_final)"
  by code_simp

lemma flaky_copy_run:
  "copy_objects flaky_client example_control example_pool ''logs'' ''/logs/2023/'' ''backup''
     ''archive/'' = Some (True, flaky_copy_final)"
  by code_simp

lemma remove_prefix_append: "remove_prefix xs (xs @ rest) = Some rest"
  by (induction xs) simp_all

lemma copy_tasks_dest:
  "task \<in> set (copy_tasks sp dp pages) \<Longrightarrow> snd task = dest_key sp dp (fst task)"
  by (auto simp: copy_tasks_def)

lemma cancelled_run:
  "clean_bucket example_client cancelling_control example_pool ''logs''
     = Some (False, cancelled_final)"
  by code_simp

lemma broken_run:
  "clean_bucket broken_client example_control example_pool ''logs'' = Some (False, broken_final)"
  by code_simp

lemma broken_copy_run:
  "copy_objects broken_client example_control example_pool ''logs'' [] ''backup'' []
     = Some (False, broken_copy_final)"
  by code_simp

lemma offline_run:
  "clean_bucket offline_client example_control example_pool ''logs'' = Some (False, offline_final)"
  by code_simp


subsection \<open>Seeing a cancellation\<close>

lemma cancel_seen_poll_True: "fst (poll_cancel c s) \<Longrightarrow> cancel_seen c (snd (poll_cancel c s))"
  by (cases "cancel_flag c") (auto simp: poll_cancel_def cancel_seen_def list_ex_iff)

lemma cancel_seen_poll_False:
  "\<not> fst (poll_cancel c s) \<Longrightarrow> cancel_seen c (snd (poll_cancel c s)) = cancel_seen c s"
  by (cases "cancel_flag c") (auto simp: poll_cancel_def cancel_seen_def list_ex_iff less_Suc_eq)

lemma cancel_seen_cong: "cancel_polls s' = cancel_polls s \<Longrightarrow> cancel_seen c s' = cancel_seen c s"
  by (cases "cancel_flag c") (simp_all add: cancel_seen_def)

lemma cancel_seen_poll_pause [simp]: "cancel_seen c (snd (poll_pause c s)) = cancel_seen c s"
  by (rule cancel_seen_cong) (cases "pause_flag c"; simp add: poll_pause_def)

text \<open>The wait for a pause ends normally only if none of its polls saw a cancellation,
  and ends early only if one did.\<close>

lemma wait_while_paused_cancel_seen:
  fixes s :: "('t, 'a) run_base_scheme"
  assumes "wait_while_paused c s = Some y"
  shows "cancel_seen c (snd y) = (fst y \<or> cancel_seen c s)"
proof (rule wait_while_paused.raw_induct
    [where P = "\<lambda>c s y. cancel_seen c (snd y) = (fst y \<or> cancel_seen c s)", OF _ assms])
  fix w :: "control \<Rightarrow> ('t, 'a) run_base_scheme \<Rightarrow> (bool \<times> ('t, 'a) run_base_scheme) option"
  fix c and s :: "('t, 'a) run_base_scheme" and y
  let ?s1 = "snd (poll_pause c s)"
  let ?s2 = "snd (poll_cancel c ?s1)"
  assume IH: "\<And>c s y. w c s = Some y \<Longrightarrow> cancel_seen c (snd y) = (fst y \<or> cancel_seen c s)"
  assume eq: "(if fst (poll_pause c s)
               then if fst (poll_cancel c ?s1) then Some (True, ?s2) else w c ?s2
               else Some (False, ?s1)) = Some y"
  show "cancel_seen c (snd y) = (fst y \<or> cancel_seen c s)"
  proof (cases "fst (poll_pause c s)")
    case False
    with eq have "y = (False, ?s1)" by simp
    then show ?thesis by simp
  next
    case paused: True
    show ?thesis
    proof (cases "fst (poll_cancel c ?s1)")
      case True
      with paused eq have "y = (True, ?s2)" by simp
      with cancel_seen_poll_True [OF True] show ?thesis by simp
    next
      case False
      with paused eq have "w c ?s2 = Some y" by simp
      from IH [OF this] cancel_seen_poll_False [OF False] show ?thesis by simp
    qed
  qed
qed

lemma after_page_cancel_seen [simp]:
  "cancel_seen c (after_page c' v fl page s) = cancel_seen c s"
  by (rule cancel_seen_cong) simp

lemma after_copy_page_cancel_seen [simp]:
  "cancel_seen c (after_copy_page c' sp dp page s) = cancel_seen c s"
  by (rule cancel_seen_cong) simp

lemma after_copy_cancel_seen [simp]:
  "cancel_seen c (after_copy c' cl sb db task s) = cancel_seen c s"
  by (rule cancel_seen_cong) simp

lemma notify_cancel_seen [simp]: "cancel_seen c (notify c' m s) = cancel_seen c s"
  by (rule cancel_seen_cong) simp

lemma cancel_futures_cancel_seen [simp]: "cancel_seen c (cancel_futures p s) = cancel_seen c s"
  by (rule cancel_seen_cong) simp

text \<open>A loop that runs to its end has seen no cancellation, unless one was seen before.\<close>

lemma clean_pages_Done_unseen:
  "clean_pages c p v fl pages s = Some (Done, s') \<Longrightarrow> cancel_seen c s' = cancel_seen c s"
proof (induction pages arbitrary: s)
  case Nil
  then show ?case by simp
next
  case (Cons pg pages)
  show ?case
  proof (cases pg)
    case (Inl e)
    with Cons.prems show ?thesis by simp
  next
    case (Inr page)
    from Cons.prems [unfolded Inr] show ?thesis
    proof (cases rule: clean_pages_Inr_cases)
      case (continue s1)
      from wait_while_paused_cancel_seen [OF continue(2)] cancel_seen_poll_False [OF continue(1)]
        Cons.IH [OF continue(3)]
      show ?thesis by simp
    qed simp_all
  qed
qed

lemma copy_pages_Done_unseen:
  "copy_pages c p sp dp pages s = Some (Done, s') \<Longrightarrow> cancel_seen c s' = cancel_seen c s"
proof (induction pages arbitrary: s)
  case Nil
  then show ?case by simp
next
  case (Cons pg pages)
  show ?case
  proof (cases pg)
    case (Inl e)
    with Cons.prems show ?thesis by simp
  next
    case (Inr page)
    from Cons.prems [unfolded Inr] show ?thesis
    proof (cases rule: copy_pages_Inr_cases)
      case (continue s1)
      from wait_while_paused_cancel_seen [OF continue(2)] cancel_seen_poll_False [OF continue(1)]
        Cons.IH [OF continue(3)]
      show ?thesis by simp
    qed simp_all
  qed
qed

lemma drain_batches_Done_unseen:
  "drain_batches c cl b v bs s = (Done, s') \<Longrightarrow> cancel_seen c s' = cancel_seen c s"
proof (induction bs arbitrary: s)
  case Nil
  then show ?case by simp
next
  case (Cons batch bs)
  from Cons.prems have nc: "\<not> fst (poll_cancel c s)" by (auto split: if_splits)
  let ?s1 = "snd (poll_cancel c s)"
  let ?s2 = "?s1\<lparr>completed_batches := Suc (completed_batches ?s1),
                  deleted_count := deleted_count ?s1 + fst (snd (delete_batch cl b batch))\<rparr>"
  let ?s3 = "notify c (MsgDeleted v (deleted_count ?s2) (completed_batches ?s2)
                         (batches_created ?s2)) ?s2"
  from Cons.prems nc have "drain_batches c cl b v bs ?s3 = (Done, s')"
    by (simp add: Let_def)
  from Cons.IH [OF this] have "cancel_seen c s' = cancel_seen c ?s3" .
  also have "\<dots> = cancel_seen c ?s1" by (rule cancel_seen_cong) simp
  also from nc have "\<dots> = cancel_seen c s" by (rule cancel_seen_poll_False)
  finally show ?case .
qed

lemma drain_copies_Done_unseen:
  "drain_copies c cl sb db ts s = Some (Done, s') \<Longrightarrow> cancel_seen c s' = cancel_seen c s"
proof (induction ts arbitrary: s)
  case Nil
  then show ?case by simp
next
  case (Cons task ts)
  from Cons.prems show ?case
  proof (cases rule: drain_copies_Cons_cases)
    case (continue s1)
    from wait_while_paused_cancel_seen [OF continue(2)] cancel_seen_poll_False [OF continue(1)]
      Cons.IH [OF continue(3)]
    show ?thesis by simp
  qed simp_all
qed

lemma init_unseen [simp]: "\<not> cancel_seen c init_clean" "\<not> cancel_seen c init_copy"
  by (simp_all add: cancel_seen_def split: option.splits)

lemma pages_Inr_not_raising: "pages = map Inr ps \<Longrightarrow> \<not> listing_raises pages"
  by (auto simp: listing_raises_def list_ex_iff)

text \<open>What a run that returns \<^verbatim>\<open>True\<close> tells about its inputs.\<close>

lemma clean_with_pool_True_inputs:
  assumes "clean_with_pool cl c p b v fl pages s0 = Some (ex, s')"
    and "fst (clean_result c (ex, s'))" and "\<not> cancel_seen c s0"
  shows "\<not> cancel_seen c s' \<and> 0 < max_workers c \<and> \<not> listing_raises pages"
  using assms(1)
proof (cases rule: clean_with_pool_cases)
  case no_pool
  with assms(2) show ?thesis by simp
next
  case (stopped ex2 s2)
  from clean_pages_not_True [OF stopped(2)] stopped(3,4)
  have "fst (clean_result c (ex, s')) = False"
    by (cases ex2) (auto simp: catch_client_error_eq clean_failed_def split: exn.splits)
  with assms(2) show ?thesis by simp
next
  case (drained s2)
  with assms(2) show ?thesis by simp
next
  case (completed s2 s4)
  from clean_pages_Done_unseen [OF completed(2)] assms(3) have "\<not> cancel_seen c s2" by simp
  with drain_batches_Done_unseen [OF completed(3)] completed(5) have "\<not> cancel_seen c s'"
    by simp
  moreover from clean_pages_Done [OF completed(2)] have "pages = map Inr (pages_of pages)"
    by simp
  then have "\<not> listing_raises pages" by (rule pages_Inr_not_raising)
  ultimately show ?thesis using completed(1) by simp
qed

lemma clean_bucket_True_inputs:
  assumes "clean_bucket cl c p b = Some (True, s)"
  shows "\<not> cancel_seen c s \<and> bucket_exists cl b = Inr True \<and> 0 < max_workers c
       \<and> (is_versioned cl b = Inr False \<and> \<not> listing_raises (list_objects_v2 cl b [])
          \<or> is_versioned cl b = Inr True \<and> \<not> listing_raises (list_object_versions cl b []))"
  using assms
proof (cases rule: clean_bucket_cases)
  case (plain ex s')
  from plain(4) have r: "fst (clean_result c (ex, s'))" and s: "s = snd (clean_result c (ex, s'))"
    by (metis fst_conv, metis snd_conv)
  from r s have "s = s'" by (cases ex) (simp_all add: clean_failed_def)
  with clean_with_pool_True_inputs [OF plain(3) r] plain(1,2) show ?thesis by simp
next
  case (versioned ex s')
  from versioned(4) have r: "fst (clean_result c (ex, s'))"
    and s: "s = snd (clean_result c (ex, s'))"
    by (metis fst_conv, metis snd_conv)
  from r s have "s = s'" by (cases ex) (simp_all add: clean_failed_def)
  with clean_with_pool_True_inputs [OF versioned(3) r] versioned(1,2) show ?thesis by simp
qed simp_all

lemma copy_objects_True_inputs:
  assumes "copy_objects cl c p sb sp0 db dp0 = Some (True, s)"
  shows "\<not> cancel_seen c s \<and> bucket_exists cl sb = Inr True \<and> bucket_exists cl db = Inr True
       \<and> 0 < max_workers c
       \<and> \<not> listing_raises (list_objects_v2 cl sb (normalize_prefix sp0))"
  using assms
proof (cases rule: copy_objects_cases)
  case (stopped ex s2)
  from copy_pages_not_True [OF stopped(4)] stopped(5,6) show ?thesis
    by (cases ex) (simp_all add: copy_failed_def)
next
  case (drained s2 ex s4)
  from drain_copies_frame [OF drained(5)] have "ex = Done \<or> ex = Return False" by simp
  with drained(6) have ex: "ex = Done" and s: "s = notify c (MsgCopyCompleted (copied_count s4)) s4"
    by auto
  from copy_pages_Done_unseen [OF drained(4)] have "\<not> cancel_seen c s2" by simp
  with drain_copies_Done_unseen [OF drained(5) [unfolded ex]] s have "\<not> cancel_seen c s"
    by simp
  moreover from copy_pages_Done [OF drained(4)]
  have "list_objects_v2 cl sb (normalize_prefix sp0) =
      map Inr (pages_of (list_objects_v2 cl sb (normalize_prefix sp0)))" by simp
  then have "\<not> listing_raises (list_objects_v2 cl sb (normalize_prefix sp0))"
    by (rule pages_Inr_not_raising)
  ultimately show ?thesis using drained(1-3) by simp
qed simp_all

subsection \<open>Cancelled futures\<close>

lemma cancel_futures_flags:
  assumes "\<forall>f \<in> set (futures s). \<not> snd f"
  shows "map snd (futures (cancel_futures p s)) =
           map (still_pending p) [0..<length (futures (cancel_futures p s))]"
proof -
  have "map snd (map (\<lambda>(i, (t, cancelled)). (t, cancelled \<or> still_pending p i)) (enumerate n fs))
        = map (still_pending p) [n..<n + length fs]"
    if "\<forall>f \<in> set fs. \<not> snd f" for n and fs :: "('t \<times> bool) list"
    using that
  proof (induction fs arbitrary: n)
    case Nil
    show ?case by simp
  next
    case (Cons f fs)
    from Cons.prems have "\<not> snd f" and "\<forall>f \<in> set fs. \<not> snd f" by simp_all
    moreover have "[n..<n + length (f # fs)] = n # [Suc n..<Suc n + length fs]"
      by (simp add: upt_conv_Cons del: upt_Suc)
    ultimately show ?case using Cons.IH [of "Suc n"]
      by (cases f) (simp del: upt_Suc)
  qed
  from this [OF assms, of 0] show ?thesis by (simp add: cancel_futures_def)
qed

lemma clean_pages_fate:
  "clean_pages c p v fl pages s = Some (ex, s') \<Longrightarrow> \<forall>f \<in> set (futures s). \<not> snd f \<Longrightarrow>
   (\<forall>f \<in> set (futures s'). \<not> snd f)
   \<or> (ex = Return False \<and> cancel_seen c s'
       \<and> map snd (futures s') = map (still_pending p) [0..<length (futures s')])"
proof (induction pages arbitrary: s)
  case Nil
  then show ?case by simp
next
  case (Cons pg pages)
  show ?case
  proof (cases pg)
    case (Inl e)
    with Cons.prems show ?thesis by simp
  next
    case (Inr page)
    from Cons.prems(1) [unfolded Inr] show ?thesis
    proof (cases rule: clean_pages_Inr_cases)
      case cancelled
      let ?s1 = "notify c MsgCancelled (snd (poll_cancel c s))"
      from Cons.prems(2) have "\<forall>f \<in> set (futures ?s1). \<not> snd f" by simp
      from cancel_futures_flags [OF this, of p] cancelled cancel_seen_poll_True [OF cancelled(1)]
      show ?thesis by simp
    next
      case cancelled_paused
      from wait_while_paused_polls_only [OF cancelled_paused(2)]
      have "polls_only s s'" by (auto intro: polls_only_trans [OF poll_cancel_polls_only])
      from polls_only_fields(1) [OF this] Cons.prems(2) show ?thesis by simp
    next
      case (continue s1)
      from wait_while_paused_polls_only [OF continue(2)]
      have "polls_only s s1" by (auto intro: polls_only_trans [OF poll_cancel_polls_only])
      from polls_only_fields(1) [OF this] Cons.prems(2)
      have "\<forall>f \<in> set (futures (after_page c v fl page s1)). \<not> snd f" by auto
      with continue(3) show ?thesis by (rule Cons.IH)
    qed
  qed
qed

lemma clean_with_pool_fate:
  assumes "clean_with_pool cl c p b v fl pages s0 = Some (ex, s')" and "futures s0 = []"
  shows "(\<forall>f \<in> set (futures s'). \<not> snd f)
   \<or> (\<not> fst (clean_result c (ex, s')) \<and> cancel_seen c s'
       \<and> map snd (futures s') = map (still_pending p) [0..<length (futures s')])"
  using assms(1)
proof (cases rule: clean_with_pool_cases)
  case no_pool
  with assms(2) show ?thesis by simp
next
  case (stopped ex2 s2)
  from assms(2) have "\<forall>f \<in> set (futures (notify c (MsgDeleting v (max_workers c)) s0)). \<not> snd f"
    by simp
  from clean_pages_fate [OF stopped(2) this] show ?thesis
  proof
    assume "\<forall>f \<in> set (futures s2). \<not> snd f"
    moreover from stopped(4) have "s' = snd (catch_client_error c v (ex2, s2))"
      by (metis snd_conv)
    ultimately show ?thesis by simp
  next
    assume "ex2 = Return False \<and> cancel_seen c s2
       \<and> map snd (futures s2) = map (still_pending p) [0..<length (futures s2)]"
    with stopped(4) show ?thesis by simp
  qed
next
  case (drained s2)
  from assms(2) have "\<forall>f \<in> set (futures (notify c (MsgDeleting v (max_workers c)) s0)). \<not> snd f"
    by simp
  from clean_pages_fate [OF drained(2) this] have "\<forall>f \<in> set (futures s2). \<not> snd f" by simp
  moreover from drained(3) have "futures s' = futures s2"
    by (metis drain_batches_frame(1) notify_frame(1) snd_conv)
  ultimately show ?thesis by simp
next
  case (completed s2 s4)
  from assms(2) have "\<forall>f \<in> set (futures (notify c (MsgDeleting v (max_workers c)) s0)). \<not> snd f"
    by simp
  from clean_pages_fate [OF completed(2) this] have "\<forall>f \<in> set (futures s2). \<not> snd f" by simp
  moreover from completed(3) have "futures s4 = futures s2"
    by (metis drain_batches_frame(1) notify_frame(1) snd_conv)
  ultimately show ?thesis using completed(5) by simp
qed

lemma clean_bucket_fate:
  assumes "clean_bucket cl c p b = Some (r, s)"
  shows "(\<forall>f \<in> set (futures s). \<not> snd f)
   \<or> (\<not> r \<and> cancel_seen c s
       \<and> map snd (futures s) = map (still_pending p) [0..<length (futures s)])"
  using assms
proof (cases rule: clean_bucket_cases)
  case (plain ex s')
  from plain(4) have r: "r = fst (clean_result c (ex, s'))" and s: "s = snd (clean_result c (ex, s'))"
    by (metis fst_conv, metis snd_conv)
  from clean_with_pool_fate [OF plain(3)] show ?thesis
  proof
    assume "\<forall>f \<in> set (futures s'). \<not> snd f"
    with s show ?thesis by (cases ex) simp_all
  next
    assume a: "\<not> fst (clean_result c (ex, s')) \<and> cancel_seen c s'
       \<and> map snd (futures s') = map (still_pending p) [0..<length (futures s')]"
    moreover from s have "futures s = futures s'" "cancel_polls s = cancel_polls s'"
      by (cases ex; simp)+
    ultimately show ?thesis using r cancel_seen_cong [of s s' c] by simp
  qed simp
next
  case (versioned ex s')
  from versioned(4) have r: "r = fst (clean_result c (ex, s'))"
    and s: "s = snd (clean_result c (ex, s'))"
    by (metis fst_conv, metis snd_conv)
  from clean_with_pool_fate [OF versioned(3)] show ?thesis
  proof
    assume "\<forall>f \<in> set (futures s'). \<not> snd f"
    with s show ?thesis by (cases ex) simp_all
  next
    assume a: "\<not> fst (clean_result c (ex, s')) \<and> cancel_seen c s'
       \<and> map snd (futures s') = map (still_pending p) [0..<length (futures s')]"
    moreover from s have "futures s = futures s'" "cancel_polls s = cancel_polls s'"
      by (cases ex; simp)+
    ultimately show ?thesis using r cancel_seen_cong [of s s' c] by simp
  qed simp
qed simp_all

subsection \<open>The calls that reach the store\<close>

lemma delete_batch_call:
  "snd (snd (delete_batch cl b batch)) = [DeleteObjectsCall b batch (delete_objects cl b batch)]"
  by (simp add: delete_batch_def Let_def split: sum.splits)

lemma delete_calls_eq:
  "delete_calls cl b s =
     map (\<lambda>batch. DeleteObjectsCall b batch (delete_objects cl b batch)) (executed s)"
  by (simp add: delete_calls_def delete_batch_call concat_map_singleton)

lemma requested_by_delete_calls:
  "concat (map requested_by (delete_calls cl b s)) = concat (executed s)"
  by (simp add: delete_calls_eq o_def)

lemma deleted_by_delete_calls:
  assumes "deletes_all cl b"
  shows "map Key (concat (map deleted_by (delete_calls cl b s))) = map Key (concat (executed s))"
proof -
  have "map Key (deleted_by (DeleteObjectsCall b batch (delete_objects cl b batch))) = map Key batch"
    for batch
  proof -
    from assms obtain ds where
      "delete_objects cl b batch = Inr \<lparr>Deleted = Some ds, Errors = None\<rparr>"
      and "map Key ds = map Key batch"
      unfolding deletes_all_def by blast
    then show ?thesis by simp
  qed
  then show ?thesis
    by (induction "executed s") (simp_all add: delete_calls_eq map_concat o_def)
qed

subsection \<open>Cancelling the pending futures\<close>

lemma cancel_futures_executed:
  assumes "\<forall>f \<in> set (futures s). \<not> snd f"
  shows "executed (cancel_futures p s) =
           map snd (filter (\<lambda>(i, t). \<not> still_pending p i) (enumerate 0 (submitted s)))"
proof -
  have "map fst (filter (\<lambda>f. \<not> snd f)
          (map (\<lambda>(i, (t, cancelled)). (t, cancelled \<or> still_pending p i)) (enumerate n fs)))
        = map snd (filter (\<lambda>(i, t). \<not> still_pending p i) (enumerate n (map fst fs)))"
    if "\<forall>f \<in> set fs. \<not> snd f" for n and fs :: "('t \<times> bool) list"
    using that
  proof (induction fs arbitrary: n)
    case Nil
    show ?case by simp
  next
    case (Cons f fs)
    from Cons.prems have "\<not> snd f" and "\<forall>f \<in> set fs. \<not> snd f" by simp_all
    with Cons.IH [of "Suc n"] show ?case by (cases f) simp
  qed
  from this [OF assms, of 0] show ?thesis
    by (simp add: executed_def submitted_def cancel_futures_def)
qed

section \<open>The claims\<close>

text \<open>
  C2. Every batch that a run of \<^verbatim>\<open>clean_bucket\<close> submits, on a versioned or a plain
  bucket and whatever the exit of the run, holds at most 1000 entries; the batches that
  reach the store's multi-delete call are among the submitted ones.
\<close>

theorem clean_batch_size_limit:
  assumes "clean_bucket cl c p b = Some (r, s)"
  shows "(\<forall>batch \<in> set (submitted s). length batch \<le> 1000)
       \<and> (\<forall>batch \<in> set (executed s). length batch \<le> 1000)"
proof -
  from clean_bucket_submitted [OF assms]
  have "\<forall>batch \<in> set (submitted s). length batch \<le> 1000"
    by (auto dest: page_batches_le)
  with executed_subset [of s] show ?thesis by blast
qed

theorem clean_batch_size_limit_witness:
  "clean_bucket example_client example_control example_pool ''logs'' = Some (True, example_final)
   \<and> list_all (\<lambda>batch. length batch \<le> 1000) (submitted example_final)
   \<and> list_all (\<lambda>batch. length batch \<le> 1000) (executed example_final)"
  using clean_batch_size_limit [OF example_run] example_run
  by (simp add: list_all_iff)

text \<open>
  C4, as the code has it. The page loop cuts the entries of each page into consecutive
  slices of at most 1000 and submits one batch per slice before it fetches the next page:
  the submitted batches are the batches of the first page, then those of the second, and
  so on, for the pages the run got to. Every batch is a non-empty slice of the entries of
  one page, so no batch holds entries of two pages; a page with fewer than 1000 entries
  gives one batch of its own.
\<close>

theorem clean_batches_within_one_page:
  assumes "clean_bucket cl c p b = Some (r, s)"
  shows "((\<exists>n. submitted s =
             page_batches objects_in_page (take n (pages_of (list_objects_v2 cl b []))))
          \<or> (\<exists>n. submitted s =
             page_batches objects_to_delete (take n (pages_of (list_object_versions cl b [])))))
       \<and> (\<forall>batch \<in> set (submitted s). batch \<noteq> [] \<and>
            ((\<exists>page \<in> set (pages_of (list_objects_v2 cl b [])).
                \<exists>i. batch = take 1000 (drop i (objects_in_page page)))
             \<or> (\<exists>page \<in> set (pages_of (list_object_versions cl b [])).
                \<exists>i. batch = take 1000 (drop i (objects_to_delete page)))))"
proof -
  have in_page: "\<exists>page \<in> set ps. \<exists>i. batch = take 1000 (drop i (fl page))"
    and ne: "batch \<noteq> []"
    if "batch \<in> set (page_batches fl (take n ps))" for batch n fl
      and ps :: "'p list"
  proof -
    from that obtain page where "page \<in> set (take n ps)"
      and b: "batch \<in> set (split_batches (fl page))"
      by (auto simp: page_batches_def)
    then have "page \<in> set ps" by (auto dest: in_set_takeD)
    with split_batches_slice [OF b]
    show "\<exists>page \<in> set ps. \<exists>i. batch = take 1000 (drop i (fl page))" by blast
    from b show "batch \<noteq> []" by (rule split_batches_nonempty)
  qed
  from clean_bucket_submitted [OF assms] show ?thesis
  proof
    assume a: "\<exists>n. submitted s =
      page_batches objects_in_page (take n (pages_of (list_objects_v2 cl b [])))"
    then obtain n where eq: "submitted s =
      page_batches objects_in_page (take n (pages_of (list_objects_v2 cl b [])))" ..
    have "batch \<noteq> [] \<and>
            ((\<exists>page \<in> set (pages_of (list_objects_v2 cl b [])).
                \<exists>i. batch = take 1000 (drop i (objects_in_page page)))
             \<or> (\<exists>page \<in> set (pages_of (list_object_versions cl b [])).
                \<exists>i. batch = take 1000 (drop i (objects_to_delete page))))"
      if "batch \<in> set (submitted s)" for batch
    proof -
      from that eq have m: "batch \<in> set (page_batches objects_in_page
        (take n (pages_of (list_objects_v2 cl b []))))" by simp
      from ne [OF m] in_page [OF m] show ?thesis by (intro conjI disjI1)
    qed
    then have all: "\<forall>batch \<in> set (submitted s). batch \<noteq> [] \<and>
            ((\<exists>page \<in> set (pages_of (list_objects_v2 cl b [])).
                \<exists>i. batch = take 1000 (drop i (objects_in_page page)))
             \<or> (\<exists>page \<in> set (pages_of (list_object_versions cl b [])).
                \<exists>i. batch = take 1000 (drop i (objects_to_delete page))))"
      by (rule ballI)
    from a have "(\<exists>n. submitted s =
             page_batches objects_in_page (take n (pages_of (list_objects_v2 cl b []))))
          \<or> (\<exists>n. submitted s =
             page_batches objects_to_delete (take n (pages_of (list_object_versions cl b []))))"
      by (rule disjI1)
    then show ?thesis using all by (rule conjI)
  next
    assume a: "\<exists>n. submitted s =
      page_batches objects_to_delete (take n (pages_of (list_object_versions cl b [])))"
    then obtain n where eq: "submitted s =
      page_batches objects_to_delete (take n (pages_of (list_object_versions cl b [])))" ..
    have "batch \<noteq> [] \<and>
            ((\<exists>page \<in> set (pages_of (list_objects_v2 cl b [])).
                \<exists>i. batch = take 1000 (drop i (objects_in_page page)))
             \<or> (\<exists>page \<in> set (pages_of (list_object_versions cl b [])).
                \<exists>i. batch = take 1000 (drop i (objects_to_delete page))))"
      if "batch \<in> set (submitted s)" for batch
    proof -
      from that eq have m: "batch \<in> set (page_batches objects_to_delete
        (take n (pages_of (list_object_versions cl b []))))" by simp
      from ne [OF m] in_page [OF m] show ?thesis by (intro conjI disjI2)
    qed
    then have all: "\<forall>batch \<in> set (submitted s). batch \<noteq> [] \<and>
            ((\<exists>page \<in> set (pages_of (list_objects_v2 cl b [])).
                \<exists>i. batch = take 1000 (drop i (objects_in_page page)))
             \<or> (\<exists>page \<in> set (pages_of (list_object_versions cl b [])).
                \<exists>i. batch = take 1000 (drop i (objects_to_delete page))))"
      by (rule ballI)
    from a have "(\<exists>n. submitted s =
             page_batches objects_in_page (take n (pages_of (list_objects_v2 cl b []))))
          \<or> (\<exists>n. submitted s =
             page_batches objects_to_delete (take n (pages_of (list_object_versions cl b []))))"
      by (rule disjI2)
    then show ?thesis using all by (rule conjI)
  qed
qed

theorem clean_batches_within_one_page_witness:
  "clean_bucket example_client example_control example_pool ''logs'' = Some (True, example_final)
   \<and> submitted example_final =
       page_batches objects_in_page
         (take 3 (pages_of (list_objects_v2 example_client ''logs'' [])))
   \<and> list_all (\<lambda>batch. batch \<noteq> []) (submitted example_final)"
proof -
  have "submitted example_final =
       page_batches objects_in_page
         (take 3 (pages_of (list_objects_v2 example_client ''logs'' [])))"
    by code_simp
  with clean_batches_within_one_page [OF example_run] example_run show ?thesis
    by (simp add: list_all_iff)
qed

text \<open>
  C4 as stated fails: in the example the first page leaves two entries and the third
  page one, all far below 1000, and they are not put into one batch.
\<close>

theorem page_leftovers_not_merged:
  "clean_bucket example_client example_control example_pool ''logs'' = Some (True, example_final)
   \<and> submitted example_final = [[plain_item ''a'', plain_item ''b''], [plain_item ''c'']]
   \<and> [plain_item ''a'', plain_item ''b'', plain_item ''c''] \<notin> set (submitted example_final)"
  using example_run by (simp add: example_final_submitted plain_item_def)



text \<open>
  C9. A run of \<^verbatim>\<open>clean_bucket\<close> that returns \<^verbatim>\<open>True\<close>, on a plain or a versioned
  bucket, has completed as many batches as it created, one for every future it submitted.
\<close>

theorem clean_completed_equals_created:
  assumes "clean_bucket cl c p b = Some (True, s)"
  shows "completed_batches s = batches_created s \<and> batches_created s = length (submitted s)"
  using assms by (rule clean_bucket_True_counts)

theorem clean_completed_equals_created_witness:
  "clean_bucket example_client example_control example_pool ''archive'' = Some (True, archive_final)
   \<and> completed_batches archive_final = batches_created archive_final
   \<and> batches_created archive_final = length (submitted archive_final)"
  using clean_completed_equals_created [OF archive_run] archive_run by simp



text \<open>
  C3, as the code has it. Every copy task that \<^verbatim>\<open>copy_objects\<close> submits pairs a
  source key with the destination key \<open>copy_dest_key\<close> of the two prefix arguments and
  that key, a function of these three strings alone. The function first normalizes both
  prefixes by stripping their leading and trailing slashes. With a normalized source
  prefix that is not empty, and a key that begins with it, as the keys of the listing
  under that prefix do, the destination key is the one the specification describes, for
  the normalized prefixes. With an empty one the relative key is the source key as it is,
  leading slashes included, joined with the normalized destination prefix in the same
  way. The specification's two examples hold.
\<close>

theorem copy_destination_key:
  assumes "copy_objects cl c p sb source_prefix db dest_prefix = Some (r, s)"
    and "(source_key, dkey) \<in> set (submitted s)"
    and "source_key = normalize_prefix source_prefix @ rest"
  shows "dkey = copy_dest_key source_prefix dest_prefix source_key
       \<and> (normalize_prefix source_prefix \<noteq> [] \<longrightarrow>
            spec_destination_key (normalize_prefix source_prefix)
              (normalize_prefix dest_prefix) source_key = Some dkey)
       \<and> (normalize_prefix source_prefix = [] \<longrightarrow>
            dkey = spec_join (normalize_prefix dest_prefix) source_key)
       \<and> copy_dest_key ''a/b'' ''x/y'' ''a/b/c.txt'' = ''x/y/c.txt''
       \<and> copy_dest_key [] [] source_key = source_key"
proof -
  let ?sp = "normalize_prefix source_prefix" and ?dp = "normalize_prefix dest_prefix"
  from copy_objects_submitted [OF assms(1)] assms(2)
  obtain n where "(source_key, dkey) \<in> set (copy_tasks ?sp ?dp
      (take n (pages_of (list_objects_v2 cl sb ?sp))))" by auto
  from copy_tasks_dest [OF this]
  have d: "dkey = copy_dest_key source_prefix dest_prefix source_key"
    by (simp add: copy_dest_key_def)
  have rp: "remove_prefix ?sp source_key = Some rest"
    unfolding assms(3) by (rule remove_prefix_append)
  have dr: "drop (length ?sp) source_key = rest" by (simp add: assms(3))
  have 1: "spec_destination_key ?sp ?dp source_key = Some dkey" if "?sp \<noteq> []"
    using that rp dr d
    by (auto simp: spec_destination_key_def spec_join_def copy_dest_key_def dest_key_def
        relative_key_def Let_def)
  have 2: "dkey = spec_join ?dp source_key" if "?sp = []"
    using that d
    by (auto simp: spec_join_def copy_dest_key_def dest_key_def relative_key_def Let_def)
  have 3: "copy_dest_key ''a/b'' ''x/y'' ''a/b/c.txt'' = ''x/y/c.txt''"
    by code_simp
  have 4: "copy_dest_key [] [] source_key = source_key"
    by (simp add: copy_dest_key_def dest_key_def relative_key_def normalize_prefix_def)
  from d 1 2 3 4 show ?thesis by blast
qed

theorem copy_destination_key_witness:
  "copy_objects flaky_client example_control example_pool ''logs'' ''/logs/2023/'' ''backup''
     ''archive/'' = Some (True, flaky_copy_final)
   \<and> (''logs/2023/01/a.log'', ''archive/01/a.log'') \<in> set (submitted flaky_copy_final)
   \<and> ''logs/2023/01/a.log'' = normalize_prefix ''/logs/2023/'' @ ''/01/a.log''
   \<and> normalize_prefix ''/logs/2023/'' \<noteq> []
   \<and> ''archive/01/a.log'' = copy_dest_key ''/logs/2023/'' ''archive/'' ''logs/2023/01/a.log''
   \<and> spec_destination_key (normalize_prefix ''/logs/2023/'') (normalize_prefix ''archive/'')
        ''logs/2023/01/a.log'' = Some ''archive/01/a.log''"
proof -
  have h2: "(''logs/2023/01/a.log'', ''archive/01/a.log'') \<in> set (submitted flaky_copy_final)"
    by (simp add: submitted_def flaky_copy_final_def)
  have h3: "''logs/2023/01/a.log'' = normalize_prefix ''/logs/2023/'' @ ''/01/a.log''"
    by code_simp
  have ne: "normalize_prefix ''/logs/2023/'' \<noteq> []" by code_simp
  from copy_destination_key [OF flaky_copy_run h2 h3] ne
  have "''archive/01/a.log'' = copy_dest_key ''/logs/2023/'' ''archive/'' ''logs/2023/01/a.log''"
    and "spec_destination_key (normalize_prefix ''/logs/2023/'') (normalize_prefix ''archive/'')
        ''logs/2023/01/a.log'' = Some ''archive/01/a.log''"
    by blast+
  with flaky_copy_run h2 h3 ne show ?thesis by blast
qed

text \<open>
  C3 as stated fails on the prefixes as they are given. A destination prefix that ends in
  a slash is joined by the specification with a second slash, while the code strips it
  first; a source prefix written with slashes around it is not the beginning of any key of
  the listing, while the code strips them and goes on; and with no source prefix the code
  keeps the slash that leads a key, which the specification strips.
\<close>

theorem destination_key_of_raw_prefixes:
  "copy_dest_key ''a'' ''x/'' ''a/k'' = ''x/k''
   \<and> spec_destination_key ''a'' ''x/'' ''a/k'' = Some ''x//k''
   \<and> copy_dest_key ''/a/b/'' ''/x/y/'' ''a/b/c.txt'' = ''x/y/c.txt''
   \<and> spec_destination_key ''/a/b/'' ''/x/y/'' ''a/b/c.txt'' = None
   \<and> copy_dest_key [] ''x'' ''/k'' = ''x//k''
   \<and> spec_destination_key [] ''x'' ''/k'' = Some ''x/k''"
  by code_simp

text \<open>
  C8. Take a run that no one cancels, whose pauses are lifted, whose pool size is
  positive, whose buckets pass the checks and whose listings succeed. Whatever the
  multi-delete and the copy calls answer, per-item errors, refusals and exceptions
  included, \<^verbatim>\<open>clean_bucket\<close> and \<^verbatim>\<open>copy_objects\<close> return \<^verbatim>\<open>True\<close>, and every submitted
  batch and copy has run: a failure stops no sibling. A worker writes the failures to the log:
  a warning per entry of \<^verbatim>\<open>Errors\<close>, an error for a call that raised.
\<close>

theorem item_failures_keep_success:
  assumes "head_bucket cl b = None" and "is_versioned cl b = Inr v"
    and "list_objects_v2 cl b [] = map Inr pages"
    and "list_object_versions cl b [] = map Inr vpages"
    and "head_bucket cl db = None"
    and "list_objects_v2 cl b (normalize_prefix sp0) = map Inr cpages"
    and "0 < max_workers c" and "never_cancelled c" and "pause_always_ends c"
  shows "(\<exists>s. clean_bucket cl c p b = Some (True, s) \<and> executed s = submitted s
              \<and> completed_batches s = length (submitted s))
       \<and> (\<exists>s. copy_objects cl c p b sp0 db dp0 = Some (True, s) \<and> executed s = submitted s
              \<and> completed_count s = length (submitted s))
       \<and> fst (delete_batch cl b batch) =
           (case delete_objects cl b batch of
              Inl e \<Rightarrow> [LogErrDeletingBatch (str_of e)]
            | Inr response \<Rightarrow>
                map (\<lambda>(k, m). LogWarnDeleting k m)
                  (case Errors response of None \<Rightarrow> [] | Some errs \<Rightarrow> errs))
       \<and> fst (copy_single_object cl b sk db dk) =
           (case copy_object cl b sk db dk of
              None \<Rightarrow> []
            | Some e \<Rightarrow> [LogErrCopying sk (str_of e)])"
proof -
  from clean_bucket_succeeds [OF assms(1-4) assms(7-9), of p]
  obtain s where r: "clean_bucket cl c p b = Some (True, s)" and e: "executed s = submitted s"
    by blast
  from clean_bucket_True_counts [OF r] have "completed_batches s = length (submitted s)" by simp
  with r e have 1: "\<exists>s. clean_bucket cl c p b = Some (True, s) \<and> executed s = submitted s
              \<and> completed_batches s = length (submitted s)" by blast
  from copy_objects_succeeds [OF assms(1) assms(5) assms(6) assms(7-9), of p dp0]
  obtain s' where r': "copy_objects cl c p b sp0 db dp0 = Some (True, s')"
    and f: "futures s' = map (\<lambda>t. (t, False))
                (copy_tasks (normalize_prefix sp0) (normalize_prefix dp0) cpages)"
    and cc: "completed_count s' =
               length (copy_tasks (normalize_prefix sp0) (normalize_prefix dp0) cpages)"
    by blast
  from executed_all [OF f] cc r'
  have 2: "\<exists>s. copy_objects cl c p b sp0 db dp0 = Some (True, s) \<and> executed s = submitted s
              \<and> completed_count s = length (submitted s)" by auto
  have 3: "fst (delete_batch cl b batch) =
           (case delete_objects cl b batch of
              Inl e \<Rightarrow> [LogErrDeletingBatch (str_of e)]
            | Inr response \<Rightarrow>
                map (\<lambda>(k, m). LogWarnDeleting k m)
                  (case Errors response of None \<Rightarrow> [] | Some errs \<Rightarrow> errs))"
    by (simp add: delete_batch_def Let_def split: sum.splits option.splits)
  have 4: "fst (copy_single_object cl b sk db dk) =
           (case copy_object cl b sk db dk of
              None \<Rightarrow> []
            | Some e \<Rightarrow> [LogErrCopying sk (str_of e)])"
    by (simp add: copy_single_object_def Let_def split: option.splits)
  from 1 2 3 4 show ?thesis by blast
qed

theorem item_failures_keep_success_witness:
  "head_bucket flaky_client ''logs'' = None
   \<and> is_versioned flaky_client ''logs'' = Inr False
   \<and> head_bucket flaky_client ''backup'' = None
   \<and> 0 < max_workers example_control
   \<and> never_cancelled example_control \<and> pause_always_ends example_control
   \<and> delete_objects flaky_client ''logs''
        [plain_item ''logs/2023/01/a.log'', plain_item ''logs/2023''] =
       Inr \<lparr>Deleted = Some [plain_item ''logs/2023/01/a.log''],
            Errors = Some [(''logs/2023'', ''AccessDenied'')]\<rparr>
   \<and> copy_object flaky_client ''logs'' ''logs/2023'' ''backup'' ''archive''
        = Some (ClientError ''AccessDenied'')
   \<and> clean_bucket flaky_client example_control example_pool ''logs''
        = Some (True, flaky_clean_final)
   \<and> executed flaky_clean_final = submitted flaky_clean_final
   \<and> copy_objects flaky_client example_control example_pool ''logs'' ''/logs/2023/'' ''backup''
        ''archive/'' = Some (True, flaky_copy_final)
   \<and> executed flaky_copy_final = submitted flaky_copy_final
   \<and> fst (delete_batch flaky_client ''logs''
             [plain_item ''logs/2023/01/a.log'', plain_item ''logs/2023''])
        = [LogWarnDeleting ''logs/2023'' ''AccessDenied'']
   \<and> fst (copy_single_object flaky_client ''logs'' ''logs/2023'' ''backup'' ''archive'')
        = [LogErrCopying ''logs/2023'' ''AccessDenied'']"
proof -
  let ?pages = "[\<lparr>Contents = Some [''logs/2023/01/a.log'', ''logs/2023'']\<rparr>]"
  let ?batch = "[plain_item ''logs/2023/01/a.log'', plain_item ''logs/2023'']"
  have h1: "head_bucket flaky_client ''logs'' = None" by (simp add: flaky_client_def)
  have h2: "is_versioned flaky_client ''logs'' = Inr False"
    by (simp add: is_versioned_def flaky_client_def)
  have h3: "list_objects_v2 flaky_client ''logs'' [] = map Inr ?pages"
    by (simp add: flaky_client_def)
  have h4: "list_object_versions flaky_client ''logs'' [] = map Inr []"
    by (simp add: flaky_client_def)
  have h5: "head_bucket flaky_client ''backup'' = None" by (simp add: flaky_client_def)
  have h6: "list_objects_v2 flaky_client ''logs'' (normalize_prefix ''/logs/2023/'')
      = map Inr ?pages" by (simp add: flaky_client_def)
  have h7: "0 < max_workers example_control" by (simp add: example_control_def)
  have h8: "never_cancelled example_control"
    by (simp add: never_cancelled_def example_control_def)
  have h9: "pause_always_ends example_control"
    by (simp add: pause_always_ends_def example_control_def)
  have d: "delete_objects flaky_client ''logs'' ?batch =
       Inr \<lparr>Deleted = Some [plain_item ''logs/2023/01/a.log''],
            Errors = Some [(''logs/2023'', ''AccessDenied'')]\<rparr>"
    by (simp add: flaky_client_def plain_item_def)
  have k: "copy_object flaky_client ''logs'' ''logs/2023'' ''backup'' ''archive''
        = Some (ClientError ''AccessDenied'')" by (simp add: flaky_client_def)
  from item_failures_keep_success [OF h1 h2 h3 h4 h5 h6 h7 h8 h9,
      of example_pool "''archive/''" ?batch "''logs/2023''" "''archive''"]
    flaky_clean_run flaky_copy_run d k
  have "executed flaky_clean_final = submitted flaky_clean_final
      \<and> executed flaky_copy_final = submitted flaky_copy_final
      \<and> fst (delete_batch flaky_client ''logs'' ?batch)
          = [LogWarnDeleting ''logs/2023'' ''AccessDenied'']
      \<and> fst (copy_single_object flaky_client ''logs'' ''logs/2023'' ''backup'' ''archive'')
          = [LogErrCopying ''logs/2023'' ''AccessDenied'']"
    by auto
  with h1 h2 h5 h7 h8 h9 d k flaky_clean_run flaky_copy_run show ?thesis by blast
qed




text \<open>
  C7, as the code has it. \<^verbatim>\<open>clean_bucket\<close> and \<^verbatim>\<open>copy_objects\<close> return a boolean. A run
  in which a poll of the cancel flag was answered with true returns \<^verbatim>\<open>False\<close>, and so
  does a run with an exception from verification (a bucket that is missing or cannot be
  checked, a versioning query that raises), from the listing or from the pool (a pool size
  that is not positive): \<^verbatim>\<open>True\<close> is returned only when none of these happened. The
  return value is the same for a cancelled and for a failed run.
\<close>

theorem cancelled_and_failed_return_false:
  assumes "clean_bucket cl c p b = Some (r, s)"
    and "copy_objects cl' c' p' sb sp0 db dp0 = Some (r', s')"
  shows "(cancel_seen c s \<longrightarrow> \<not> r)
       \<and> (bucket_exists cl b \<noteq> Inr True \<or> (\<exists>e. is_versioned cl b = Inl e)
            \<or> max_workers c \<le> 0
            \<or> is_versioned cl b = Inr False \<and> listing_raises (list_objects_v2 cl b [])
            \<or> is_versioned cl b = Inr True \<and> listing_raises (list_object_versions cl b [])
           \<longrightarrow> \<not> r)
       \<and> (cancel_seen c' s' \<longrightarrow> \<not> r')
       \<and> (bucket_exists cl' sb \<noteq> Inr True \<or> bucket_exists cl' db \<noteq> Inr True
            \<or> max_workers c' \<le> 0
            \<or> listing_raises (list_objects_v2 cl' sb (normalize_prefix sp0))
           \<longrightarrow> \<not> r')"
proof -
  have clean: "\<not> cancel_seen c s \<and> bucket_exists cl b = Inr True \<and> 0 < max_workers c
       \<and> (is_versioned cl b = Inr False \<and> \<not> listing_raises (list_objects_v2 cl b [])
          \<or> is_versioned cl b = Inr True \<and> \<not> listing_raises (list_object_versions cl b []))"
    if r
    using assms(1) that by (intro clean_bucket_True_inputs) simp
  have copy: "\<not> cancel_seen c' s' \<and> bucket_exists cl' sb = Inr True
       \<and> bucket_exists cl' db = Inr True \<and> 0 < max_workers c'
       \<and> \<not> listing_raises (list_objects_v2 cl' sb (normalize_prefix sp0))"
    if r'
    using assms(2) that by (intro copy_objects_True_inputs) simp
  from clean have 1: "cancel_seen c s \<longrightarrow> \<not> r" by blast
  from clean have 2: "bucket_exists cl b \<noteq> Inr True \<or> (\<exists>e. is_versioned cl b = Inl e)
            \<or> max_workers c \<le> 0
            \<or> is_versioned cl b = Inr False \<and> listing_raises (list_objects_v2 cl b [])
            \<or> is_versioned cl b = Inr True \<and> listing_raises (list_object_versions cl b [])
           \<longrightarrow> \<not> r"
    by (cases r) auto
  from copy have 3: "cancel_seen c' s' \<longrightarrow> \<not> r'" by blast
  from copy have 4: "bucket_exists cl' sb \<noteq> Inr True \<or> bucket_exists cl' db \<noteq> Inr True
            \<or> max_workers c' \<le> 0
            \<or> listing_raises (list_objects_v2 cl' sb (normalize_prefix sp0))
           \<longrightarrow> \<not> r'"
    by (cases r') auto
  from 1 2 3 4 show ?thesis by (intro conjI)
qed

theorem cancelled_and_failed_return_false_witness:
  "clean_bucket example_client cancelling_control example_pool ''logs''
     = Some (False, cancelled_final)
   \<and> copy_objects broken_client example_control example_pool ''logs'' [] ''backup'' []
     = Some (False, broken_copy_final)
   \<and> cancel_seen cancelling_control cancelled_final
   \<and> listing_raises (list_objects_v2 broken_client ''logs'' (normalize_prefix []))
   \<and> \<not> False"
proof -
  have "cancel_seen cancelling_control cancelled_final" by code_simp
  moreover have "listing_raises (list_objects_v2 broken_client ''logs'' (normalize_prefix []))"
    by code_simp
  ultimately show ?thesis
    using cancelled_and_failed_return_false [OF cancelled_run broken_copy_run]
      cancelled_run broken_copy_run by blast
qed

text \<open>
  C7 as stated fails: a run that saw the cancellation and a run whose listing raised both
  return the same value, \<^verbatim>\<open>False\<close>.
\<close>

theorem cancelled_and_failed_same_value:
  "clean_bucket example_client cancelling_control example_pool ''logs''
     = Some (False, cancelled_final)
   \<and> cancel_seen cancelling_control cancelled_final
   \<and> clean_bucket broken_client example_control example_pool ''logs'' = Some (False, broken_final)
   \<and> \<not> cancel_seen example_control broken_final
   \<and> listing_raises (list_objects_v2 broken_client ''logs'' [])"
proof -
  have "cancel_seen cancelling_control cancelled_final" by code_simp
  moreover have "\<not> cancel_seen example_control broken_final" by code_simp
  moreover have "listing_raises (list_objects_v2 broken_client ''logs'' [])" by code_simp
  ultimately show ?thesis using cancelled_run broken_run by simp
qed

text \<open>
  C10, as the code has it. When the versioning query raises a \<^verbatim>\<open>ClientError\<close>, the
  versioning check answers not-versioned and \<^verbatim>\<open>clean_bucket\<close> is the plain cleaning
  function from there on, which returns \<^verbatim>\<open>True\<close> when nothing else goes wrong: the
  refused query alone never makes the run fail.
\<close>

theorem versioning_client_error_means_plain:
  assumes "head_bucket cl b = None" and "get_bucket_versioning cl b = Inl (ClientError m)"
  shows "is_versioned cl b = Inr False
       \<and> clean_bucket cl c p b =
           map_option (clean_result c)
             (clean_non_versioned_bucket cl c p b
                (notify c (MsgVersioning False) (notify c (MsgVerifying b) init_clean)))
       \<and> (list_objects_v2 cl b [] = map Inr pages \<and> 0 < max_workers c
            \<and> never_cancelled c \<and> pause_always_ends c \<longrightarrow>
           (\<exists>s. clean_bucket cl c p b = Some (True, s)
                \<and> submitted s = page_batches objects_in_page pages))"
proof -
  from assms(2) have v: "is_versioned cl b = Inr False" by (simp add: is_versioned_def)
  let ?s0 = "notify c (MsgVersioning False) (notify c (MsgVerifying b) init_clean)"
  from clean_bucket_started [OF bucket_exists_head [OF assms(1)] v]
  have e: "clean_bucket cl c p b =
           map_option (clean_result c) (clean_non_versioned_bucket cl c p b ?s0)"
    by simp
  have "\<exists>s. clean_bucket cl c p b = Some (True, s)
                \<and> submitted s = page_batches objects_in_page pages"
    if l: "list_objects_v2 cl b [] = map Inr pages" and w: "0 < max_workers c"
      and nc: "never_cancelled c" and pe: "pause_always_ends c"
  proof -
    from clean_with_pool_succeeds [OF w nc pe, of ?s0 cl p b False objects_in_page pages]
    obtain s where run: "clean_with_pool cl c p b False objects_in_page (map Inr pages) ?s0
        = Some (Return True, s)"
      and f: "futures s = map (\<lambda>t. (t, False)) (page_batches objects_in_page pages)"
      by auto
    from run l e have "clean_bucket cl c p b = Some (True, s)"
      by (simp add: clean_non_versioned_bucket_def)
    with executed_all [OF f] show ?thesis by simp
  qed
  with v e show ?thesis by blast
qed

theorem versioning_client_error_means_plain_witness:
  "head_bucket flaky_client ''logs'' = None
   \<and> get_bucket_versioning flaky_client ''logs'' = Inl (ClientError ''AccessDenied'')
   \<and> is_versioned flaky_client ''logs'' = Inr False
   \<and> list_objects_v2 flaky_client ''logs'' [] =
       map Inr [\<lparr>Contents = Some [''logs/2023/01/a.log'', ''logs/2023'']\<rparr>]
   \<and> 0 < max_workers example_control
   \<and> never_cancelled example_control \<and> pause_always_ends example_control
   \<and> clean_bucket flaky_client example_control example_pool ''logs''
       = Some (True, flaky_clean_final)"
proof -
  have h1: "head_bucket flaky_client ''logs'' = None" by (simp add: flaky_client_def)
  have h2: "get_bucket_versioning flaky_client ''logs'' = Inl (ClientError ''AccessDenied'')"
    by (simp add: flaky_client_def)
  have h3: "list_objects_v2 flaky_client ''logs'' [] =
       map Inr [\<lparr>Contents = Some [''logs/2023/01/a.log'', ''logs/2023'']\<rparr>]"
    by (simp add: flaky_client_def)
  have h4: "0 < max_workers example_control" by (simp add: example_control_def)
  have h5: "never_cancelled example_control"
    by (simp add: never_cancelled_def example_control_def)
  have h6: "pause_always_ends example_control"
    by (simp add: pause_always_ends_def example_control_def)
  from versioning_client_error_means_plain [OF h1 h2, of example_control example_pool]
  have "is_versioned flaky_client ''logs'' = Inr False" by blast
  with h1 h2 h3 h4 h5 h6 flaky_clean_run show ?thesis by blast
qed

text \<open>
  C10 as stated fails: a versioning query that raises an exception other than a
  \<^verbatim>\<open>ClientError\<close> is not caught by the check, and \<^verbatim>\<open>clean_bucket\<close> returns \<^verbatim>\<open>False\<close>
  without listing or deleting anything.
\<close>

theorem versioning_other_exception_fails:
  "head_bucket offline_client ''logs'' = None
   \<and> get_bucket_versioning offline_client ''logs''
       = Inl (OtherException ''Could not connect to the endpoint URL'')
   \<and> is_versioned offline_client ''logs''
       = Inl (OtherException ''Could not connect to the endpoint URL'')
   \<and> clean_bucket offline_client example_control example_pool ''logs''
       = Some (False, offline_final)
   \<and> submitted offline_final = []"
proof -
  have "head_bucket offline_client ''logs'' = None" by code_simp
  moreover have "get_bucket_versioning offline_client ''logs''
       = Inl (OtherException ''Could not connect to the endpoint URL'')" by code_simp
  moreover have "is_versioned offline_client ''logs''
       = Inl (OtherException ''Could not connect to the endpoint URL'')" by code_simp
  moreover have "submitted offline_final = []" by code_simp
  ultimately show ?thesis using offline_run by simp
qed

end
